theory Spec2Isabelle
  imports Main "HOL-Library.AList" "HOL-Library.Sublist"
    "HOL-Library.List_Lexorder" "HOL-Library.Char_ord"
begin

section \<open>Python dictionaries and dictionary objects\<close>

text \<open>
  A Python \<open>dict\<close> with string keys is an association list in insertion order:
  \<open>map_of\<close> reads a key, \<open>AList.update\<close> assigns one (an existing key keeps its
  place, a new key goes to the end, as in Python), and iterating \<open>items()\<close> walks the
  list. Values are compared with Python's \<open>==\<close>/\<open>!=\<close>, modelled by HOL equality on
  the value type \<open>'v\<close>.

  The inner dictionaries of \<open>virtual_configs\<close> and \<open>option_sources\<close> are mutable
  objects that \<open>copy.copy\<close> shares between a dictionary and its shallow copy. They
  live in an explicit store: a list of dictionaries, a reference being an index, and
  \<open>{}\<close> allocating the next index.
\<close>

type_synonym 'a pydict = "(string \<times> 'a) list"

type_synonym ref = nat

definition dict_get :: "'a pydict \<Rightarrow> string \<Rightarrow> 'a \<Rightarrow> 'a" where
  "dict_get d k dflt = (case map_of d k of None \<Rightarrow> dflt | Some v \<Rightarrow> v)"

definition heap_get :: "'a pydict list \<Rightarrow> ref \<Rightarrow> string \<Rightarrow> 'a option" where
  "heap_get h r k = map_of (h ! r) k"

definition heap_set :: "'a pydict list \<Rightarrow> ref \<Rightarrow> string \<Rightarrow> 'a \<Rightarrow> 'a pydict list" where
  "heap_set h r k v = h[r := AList.update k v (h ! r)]"

text \<open>
  \<open>outer.setdefault(name, {})\<close> on a dictionary of references: the reference stored
  under \<open>name\<close>, or a freshly allocated empty dictionary that is stored under it.
\<close>

definition setdefault_new ::
  "ref pydict \<Rightarrow> 'a pydict list \<Rightarrow> string \<Rightarrow> ref \<times> ref pydict \<times> 'a pydict list" where
  "setdefault_new outer h name =
     (case map_of outer name of
        Some r \<Rightarrow> (r, outer, h)
      | None \<Rightarrow> (length h, outer @ [(name, length h)], h @ [[]]))"

section \<open>The configuration arbitrator\<close>

text \<open>
  The exceptions the arbitrator can raise. \<open>ConfigArbitrateError\<close> carries the five
  values its message is formatted from: the option, the value demanded, the claiming
  functionality, the recorded source of the existing setting and the existing value.
  \<open>AssertionError\<close> is what a failing \<open>assert\<close> raises, \<open>KeyError\<close> what a
  subscript with a missing key raises.
\<close>

datatype 'v error =
    ConfigArbitrateError string 'v string string 'v
  | AssertionError
  | KeyError string

fun exception_class :: "'v error \<Rightarrow> string" where
  "exception_class (ConfigArbitrateError option val func existing_func cur) = ''ConfigArbitrateError''"
| "exception_class AssertionError = ''AssertionError''"
| "exception_class (KeyError k) = ''KeyError''"



text \<open>
  What the arbitration does besides changing the arbitrator: a warning of the logger
  (the performance claim and the option) and a call of a fallback callback. A callback
  is opaque; \<open>'f\<close> identifies it.
\<close>

datatype 'f event = Warning string string | Fallback 'f

text \<open>
  The arbitrator: the four dictionaries of \<open>__init__\<close>, the two stores of the inner
  dictionaries, and the effects so far. \<open>func_claims\<close> maps a config name to its list
  of \<open>(func, options)\<close>, \<open>perf_claims\<close> a performance name to its list of
  \<open>(config_name, options, fallback)\<close>.
\<close>

record ('v, 'f) arbitrator =
  cfg_heap :: "'v pydict list"
  src_heap :: "string pydict list"
  virtual_configs :: "ref pydict"
  func_claims :: "(string \<times> 'v pydict) list pydict"
  perf_claims :: "(string \<times> 'v pydict \<times> 'f option) list pydict"
  option_sources :: "ref pydict"
  events :: "'f event list"

definition init :: "('v, 'f) arbitrator" where
  "init = \<lparr>cfg_heap = [], src_heap = [], virtual_configs = [], func_claims = [],
            perf_claims = [], option_sources = [], events = []\<rparr>"

text \<open>
  The pair of assignments \<open>virtual_config[option] = value\<close> and
  \<open>option_sources[option] = source\<close> on the dictionaries at \<open>rc\<close> and \<open>rs\<close>, which
  \<open>setup\<close> and both phases of \<open>_arbitrate\<close> make.
\<close>

definition assign_option ::
  "ref \<Rightarrow> ref \<Rightarrow> string \<Rightarrow> 'v \<Rightarrow> string \<Rightarrow> ('v, 'f) arbitrator \<Rightarrow> ('v, 'f) arbitrator" where
  "assign_option rc rs option val source s =
     s\<lparr>cfg_heap := heap_set (cfg_heap s) rc option val,
       src_heap := heap_set (src_heap s) rs option source\<rparr>"

text \<open>
  \<open>setup\<close>: for each keyword argument, \<open>assert config.get(option, value) == value\<close>,
  then both assignments. A raise returns the exception alone.
\<close>

fun setup_options ::
  "string \<Rightarrow> 'v pydict \<Rightarrow> ref \<Rightarrow> ref \<Rightarrow> ('v, 'f) arbitrator \<Rightarrow> 'v error + ('v, 'f) arbitrator" where
  "setup_options info [] rc rs s = Inr s"
| "setup_options info ((option, val) # rest) rc rs s =
     (if dict_get (cfg_heap s ! rc) option val = val
      then setup_options info rest rc rs (assign_option rc rs option val info s)
      else Inl AssertionError)"

definition setup_arb ::
  "string \<Rightarrow> string \<Rightarrow> 'v pydict \<Rightarrow> ('v, 'f) arbitrator \<Rightarrow> 'v error + ('v, 'f) arbitrator" where
  "setup_arb info config_name kwargs s =
     (case setdefault_new (virtual_configs s) (cfg_heap s) config_name of (rc, vcs, ch) \<Rightarrow>
      case setdefault_new (option_sources s) (src_heap s) config_name of (rs, oss, sh) \<Rightarrow>
        setup_options info kwargs rc rs
          (s\<lparr>virtual_configs := vcs, cfg_heap := ch, option_sources := oss, src_heap := sh\<rparr>))"

text \<open>\<open>claim_func\<close> and \<open>claim_perf\<close>: \<open>setdefault(name, [])\<close>, then \<open>append\<close>.\<close>

definition claim_func ::
  "string \<Rightarrow> string \<Rightarrow> 'v pydict \<Rightarrow> ('v, 'f) arbitrator \<Rightarrow> ('v, 'f) arbitrator" where
  "claim_func func config_name options s =
     s\<lparr>func_claims :=
         (case map_of (func_claims s) config_name of
            None \<Rightarrow> func_claims s @ [(config_name, [(func, options)])]
          | Some claims \<Rightarrow>
              AList.update config_name (claims @ [(func, options)]) (func_claims s))\<rparr>"

definition claim_perf ::
  "string \<Rightarrow> string \<Rightarrow> 'f option \<Rightarrow> 'v pydict \<Rightarrow> ('v, 'f) arbitrator \<Rightarrow> ('v, 'f) arbitrator" where
  "claim_perf perf config_name fallback options s =
     s\<lparr>perf_claims :=
         (case map_of (perf_claims s) perf of
            None \<Rightarrow> perf_claims s @ [(perf, [(config_name, options, fallback)])]
          | Some claims \<Rightarrow>
              AList.update perf (claims @ [(config_name, options, fallback)]) (perf_claims s))\<rparr>"

text \<open>
  \<open>_arbitrate\<close>, functionality claims: the loop over the options of one claim, over
  the claims of one config, and over the configs.
\<close>

fun func_options ::
  "string \<Rightarrow> 'v pydict \<Rightarrow> ref \<Rightarrow> ref \<Rightarrow> ('v, 'f) arbitrator \<Rightarrow> 'v error + ('v, 'f) arbitrator" where
  "func_options func [] rc rs s = Inr s"
| "func_options func ((option, val) # rest) rc rs s =
     (case heap_get (cfg_heap s) rc option of
        Some cur \<Rightarrow>
          (if cur \<noteq> val
           then (case heap_get (src_heap s) rs option of
                   None \<Rightarrow> Inl (KeyError option)
                 | Some existing_func \<Rightarrow>
                     Inl (ConfigArbitrateError option val func existing_func cur))
           else func_options func rest rc rs s)
      | None \<Rightarrow> func_options func rest rc rs (assign_option rc rs option val func s))"

fun func_funcs ::
  "(string \<times> 'v pydict) list \<Rightarrow> ref \<Rightarrow> ref \<Rightarrow> ('v, 'f) arbitrator \<Rightarrow> 'v error + ('v, 'f) arbitrator" where
  "func_funcs [] rc rs s = Inr s"
| "func_funcs ((func, options) # rest) rc rs s =
     (case func_options func options rc rs s of
        Inl e \<Rightarrow> Inl e
      | Inr s' \<Rightarrow> func_funcs rest rc rs s')"

fun func_phase ::
  "(string \<times> 'v pydict) list pydict \<Rightarrow> ('v, 'f) arbitrator \<Rightarrow> 'v error + ('v, 'f) arbitrator" where
  "func_phase [] s = Inr s"
| "func_phase ((config_name, funcs) # rest) s =
     (case setdefault_new (virtual_configs s) (cfg_heap s) config_name of (rc, vcs, ch) \<Rightarrow>
      case setdefault_new (option_sources s) (src_heap s) config_name of (rs, oss, sh) \<Rightarrow>
      case func_funcs funcs rc rs
             (s\<lparr>virtual_configs := vcs, cfg_heap := ch, option_sources := oss, src_heap := sh\<rparr>) of
        Inl e \<Rightarrow> Inl e
      | Inr s' \<Rightarrow> func_phase rest s')"

text \<open>
  \<open>_arbitrate\<close>, performance claims. \<open>copy.copy\<close> copies the two outer dictionaries
  only: the local \<open>virtual_configs\<close> and \<open>option_sources\<close> hold the same references
  as the arbitrator's, so an assignment through them writes the store both see. The
  inner loop returns the flag \<open>restore\<close>; the loop over the entries of one claim
  returns it with the local dictionaries; without \<open>restore\<close> they are assigned to the
  arbitrator.
\<close>

fun perf_options ::
  "string \<Rightarrow> 'v pydict \<Rightarrow> ref \<Rightarrow> ref \<Rightarrow> ('v, 'f) arbitrator \<Rightarrow> bool \<times> ('v, 'f) arbitrator" where
  "perf_options perf [] rc rs s = (False, s)"
| "perf_options perf ((option, val) # rest) rc rs s =
     (if (case heap_get (cfg_heap s) rc option of Some cur \<Rightarrow> cur \<noteq> val | None \<Rightarrow> False)
      then (True, s\<lparr>events := events s @ [Warning perf option]\<rparr>)
      else perf_options perf rest rc rs (assign_option rc rs option val perf s))"

fun perf_entries ::
  "string \<Rightarrow> (string \<times> 'v pydict \<times> 'f option) list \<Rightarrow> ref pydict \<Rightarrow> ref pydict \<Rightarrow>
   ('v, 'f) arbitrator \<Rightarrow> bool \<times> ref pydict \<times> ref pydict \<times> ('v, 'f) arbitrator" where
  "perf_entries perf [] vcs oss s = (False, vcs, oss, s)"
| "perf_entries perf ((config_name, options, fallback) # rest) vcs oss s =
     (case setdefault_new vcs (cfg_heap s) config_name of (rc, vcs', ch) \<Rightarrow>
      case setdefault_new oss (src_heap s) config_name of (rs, oss', sh) \<Rightarrow>
      case perf_options perf options rc rs (s\<lparr>cfg_heap := ch, src_heap := sh\<rparr>) of
        (restore, s') \<Rightarrow>
          (if restore
           then (True, vcs', oss',
                 (case fallback of
                    Some f \<Rightarrow> s'\<lparr>events := events s' @ [Fallback f]\<rparr>
                  | None \<Rightarrow> s'))
           else perf_entries perf rest vcs' oss' s'))"

fun perf_phase ::
  "(string \<times> 'v pydict \<times> 'f option) list pydict \<Rightarrow> ('v, 'f) arbitrator \<Rightarrow> ('v, 'f) arbitrator" where
  "perf_phase [] s = s"
| "perf_phase ((perf, entries) # rest) s =
     (case perf_entries perf entries (virtual_configs s) (option_sources s) s of
        (restore, vcs, oss, s') \<Rightarrow>
          perf_phase rest
            (if \<not> restore then s'\<lparr>option_sources := oss, virtual_configs := vcs\<rparr> else s'))"

definition arbitrate :: "('v, 'f) arbitrator \<Rightarrow> 'v error + ('v, 'f) arbitrator" where
  "arbitrate s =
     (case func_phase (func_claims s) s of
        Inl e \<Rightarrow> Inl e
      | Inr s' \<Rightarrow> Inr (perf_phase (perf_claims s') s'))"

text \<open>
  \<open>__call__\<close>: arbitrate, then for every config passed by name that the virtual
  configs know, \<open>setattr(config, option, value)\<close> for each item. A config object is
  the dictionary of its attributes.
\<close>

fun setattrs :: "'v pydict \<Rightarrow> 'v pydict \<Rightarrow> 'v pydict" where
  "setattrs [] config = config"
| "setattrs ((option, val) # rest) config = setattrs rest (AList.update option val config)"

definition apply_virtual ::
  "('v, 'f) arbitrator \<Rightarrow> string \<times> 'v pydict \<Rightarrow> string \<times> 'v pydict" where
  "apply_virtual s nc =
     (case map_of (virtual_configs s) (fst nc) of
        None \<Rightarrow> nc
      | Some r \<Rightarrow> (fst nc, setattrs (cfg_heap s ! r) (snd nc)))"

definition arbitrator_call ::
  "('v, 'f) arbitrator \<Rightarrow> 'v pydict pydict \<Rightarrow> 'v error + ('v, 'f) arbitrator \<times> 'v pydict pydict" where
  "arbitrator_call s configs =
     (case arbitrate s of
        Inl e \<Rightarrow> Inl e
      | Inr s' \<Rightarrow> Inr (s', map (apply_virtual s') configs))"

text \<open>The value of an option in a virtual config, read through the reference.\<close>

definition vc_lookup :: "('v, 'f) arbitrator \<Rightarrow> string \<Rightarrow> string \<Rightarrow> 'v option" where
  "vc_lookup s config_name option =
     (case map_of (virtual_configs s) config_name of
        None \<Rightarrow> None
      | Some r \<Rightarrow> heap_get (cfg_heap s) r option)"

definition source_lookup :: "('v, 'f) arbitrator \<Rightarrow> string \<Rightarrow> string \<Rightarrow> string option" where
  "source_lookup s config_name option =
     (case map_of (option_sources s) config_name of
        None \<Rightarrow> None
      | Some r \<Rightarrow> heap_get (src_heap s) r option)"

text \<open>
  The class of the exception a call raised, if it raised, and the sequencing of two
  calls of which the first may raise.
\<close>

definition raised_class :: "'v error + 'a \<Rightarrow> string option" where
  "raised_class res = (case res of Inl e \<Rightarrow> Some (exception_class e) | Inr x \<Rightarrow> None)"

definition and_then :: "'e + 'a \<Rightarrow> ('a \<Rightarrow> 'e + 'b) \<Rightarrow> 'e + 'b" where
  "and_then res f = (case res of Inl e \<Rightarrow> Inl e | Inr x \<Rightarrow> f x)"


section \<open>Well-formed arbitrators\<close>

text \<open>
  What every arbitrator built from \<open>init\<close> by the methods satisfies: the two outer
  dictionaries hold the same names and references, the inner dictionaries of both
  stores hold the same keys in the same order (an option and its source are always
  assigned together), no key occurs twice in a dictionary, every reference points into
  the store, and no two names refer to the same dictionary.
\<close>

definition wf_arb :: "('v, 'f) arbitrator \<Rightarrow> bool" where
  "wf_arb s \<longleftrightarrow>
     option_sources s = virtual_configs s \<and>
     map (map fst) (cfg_heap s) = map (map fst) (src_heap s) \<and>
     list_all (\<lambda>d. distinct (map fst d)) (cfg_heap s) \<and>
     list_all (\<lambda>nr. snd nr < length (cfg_heap s)) (virtual_configs s) \<and>
     distinct (map snd (virtual_configs s))"

text \<open>
  How the store changes while claims are resolved: \<open>hinv\<close> is the part of \<open>wf_arb\<close>
  about the store alone; \<open>evolves s s'\<close> says that \<open>s'\<close> keeps every binding of
  every dictionary of \<open>s\<close> and the registered claims; \<open>inner_step s s'\<close> that, on
  top of this, the outer dictionaries and the size of the store are the same.
\<close>

definition hinv :: "('v, 'f) arbitrator \<Rightarrow> bool" where
  "hinv s \<longleftrightarrow>
     map (map fst) (cfg_heap s) = map (map fst) (src_heap s) \<and>
     list_all (\<lambda>d. distinct (map fst d)) (cfg_heap s)"

definition evolves :: "('v, 'f) arbitrator \<Rightarrow> ('v, 'f) arbitrator \<Rightarrow> bool" where
  "evolves s s' \<longleftrightarrow>
     length (cfg_heap s) \<le> length (cfg_heap s') \<and>
     (\<forall>r k v. r < length (cfg_heap s) \<longrightarrow> heap_get (cfg_heap s) r k = Some v
        \<longrightarrow> heap_get (cfg_heap s') r k = Some v) \<and>
     func_claims s' = func_claims s \<and> perf_claims s' = perf_claims s"

definition inner_step :: "('v, 'f) arbitrator \<Rightarrow> ('v, 'f) arbitrator \<Rightarrow> bool" where
  "inner_step s s' \<longleftrightarrow>
     virtual_configs s' = virtual_configs s \<and> option_sources s' = option_sources s \<and>
     length (cfg_heap s') = length (cfg_heap s) \<and> evolves s s' \<and> (hinv s \<longrightarrow> hinv s')"

text \<open>Entering a config: both \<open>setdefault\<close> calls of a well-formed arbitrator.\<close>

definition enter :: "string \<Rightarrow> ('v, 'f) arbitrator \<Rightarrow> ref \<times> ('v, 'f) arbitrator" where
  "enter config_name s =
     (case setdefault_new (virtual_configs s) (cfg_heap s) config_name of (rc, vcs, ch) \<Rightarrow>
      case setdefault_new (option_sources s) (src_heap s) config_name of (rs, oss, sh) \<Rightarrow>
        (rc, s\<lparr>virtual_configs := vcs, cfg_heap := ch, option_sources := oss, src_heap := sh\<rparr>))"


text \<open>
  Registering a sequence of functionality claims \<open>(func, config_name, options)\<close> by
  \<open>claim_func\<close>, in order, and the \<open>(config_name, option)\<close> pairs the claims of a
  sequence target, one entry per option of each claim.
\<close>

definition register ::
  "(string \<times> string \<times> 'v pydict) list \<Rightarrow> ('v, 'f) arbitrator \<Rightarrow> ('v, 'f) arbitrator" where
  "register claims s =
     foldl (\<lambda>s' c. claim_func (fst c) (fst (snd c)) (snd (snd c)) s') s claims"

definition claim_targets :: "(string \<times> string \<times> 'v pydict) list \<Rightarrow> (string \<times> string) list" where
  "claim_targets claims =
     concat (map (\<lambda>c. map (\<lambda>kv. (fst (snd c), fst kv)) (snd (snd c))) claims)"

text \<open>The arbitrator after \<open>setup("pre-ampere not supported", "kv_cache_config", enable_block_reuse=False)\<close>.\<close>

definition baseline_once :: "(bool, nat) arbitrator" where
  "baseline_once =
     \<lparr>cfg_heap = [[(''enable_block_reuse'', False)]],
      src_heap = [[(''enable_block_reuse'', ''pre-ampere not supported'')]],
      virtual_configs = [(''kv_cache_config'', 0)], func_claims = [],
      perf_claims = [], option_sources = [(''kv_cache_config'', 0)], events = []\<rparr>"


section \<open>Arbitrators of \<open>LlmArgs\<close>\<close>


text \<open>
  A performance claim with two options of which the second collides with a
  functionality claim, and the arbitrator it is registered on after the functionality
  phase.
\<close>

definition dropped_claim :: "(bool, nat) arbitrator" where
  "dropped_claim =
     claim_perf ''chunked_context'' ''plugin_config'' (Some 0)
       [(''context_fmha'', True), (''use_paged_context_fmha'', True)]
       (claim_func ''streamingllm'' ''plugin_config'' [(''use_paged_context_fmha'', False)] init)"

definition before_perf :: "(bool, nat) arbitrator" where
  "before_perf =
     \<lparr>cfg_heap = [[(''use_paged_context_fmha'', False)]],
      src_heap = [[(''use_paged_context_fmha'', ''streamingllm'')]],
      virtual_configs = [(''plugin_config'', 0)],
      func_claims = [(''plugin_config'', [(''streamingllm'', [(''use_paged_context_fmha'', False)])])],
      perf_claims = [(''chunked_context'',
         [(''plugin_config'', [(''context_fmha'', True), (''use_paged_context_fmha'', True)], Some 0)])],
      option_sources = [(''plugin_config'', 0)], events = []\<rparr>"

text \<open>
  The claims of \<open>_setup_enable_streaming_llm\<close> and the three live configs
  \<open>_perform_config_arbitration\<close> passes, with the attributes the claims touch.
\<close>

definition streaming_claims :: "(string \<times> string \<times> bool pydict) list" where
  "streaming_claims =
     [(''streamingllm'', ''plugin_config'',
         [(''streamingllm'', True), (''use_paged_context_fmha'', False)]),
      (''streamingllm'', ''kv_cache_config'', [(''enable_block_reuse'', False)])]"

definition live_configs :: "bool pydict pydict" where
  "live_configs =
     [(''plugin_config'', [(''streamingllm'', True), (''use_paged_context_fmha'', True)]),
      (''kv_cache_config'', [(''enable_block_reuse'', True)]),
      (''build_config'', [])]"

text \<open>
  The claims of \<open>_setup_kv_cache_config\<close> with block reuse enabled; on a GPU before
  Ampere they are registered after the baseline of \<open>baseline_once\<close>.
\<close>

definition block_reuse_claims :: "(string \<times> string \<times> bool pydict) list" where
  "block_reuse_claims =
     [(''enable_block_reuse'', ''kv_cache_config'', [(''enable_block_reuse'', True)]),
      (''enable_block_reuse'', ''plugin_config'', [(''use_paged_context_fmha'', True)])]"

text \<open>
  Four claims on two configs: the second and the third collide on \<open>y\<close> of the config
  \<open>b\<close>, the first and the fourth on \<open>x\<close> of the config \<open>a\<close>, which the phase reaches
  first. And the claims of block reuse on a GPU before Ampere, where \<open>LlmArgs\<close> has
  set \<open>use_paged_context_fmha\<close> of the plugin config to \<open>False\<close>.
\<close>

definition crossed_claims :: "(nat, nat) arbitrator" where
  "crossed_claims =
     claim_func ''f4'' ''a'' [(''x'', 2)]
       (claim_func ''f3'' ''b'' [(''y'', 2)]
          (claim_func ''f2'' ''b'' [(''y'', 1)]
             (claim_func ''f1'' ''a'' [(''x'', 1)] init)))"

definition pre_ampere_plugin :: "(bool, nat) arbitrator" where
  "pre_ampere_plugin =
     \<lparr>cfg_heap = [[(''use_paged_context_fmha'', False)]],
      src_heap = [[(''use_paged_context_fmha'', ''pre-ampere not supported'')]],
      virtual_configs = [(''plugin_config'', 0)], func_claims = [],
      perf_claims = [], option_sources = [(''plugin_config'', 0)], events = []\<rparr>"

section \<open>The recorded source of an option\<close>

text \<open>
  For stating what the functionality phase does. \<open>first_claim funcs k\<close> is the
  functionality and the value of the first claim of a config, in the order of
  registration, that names the option \<open>k\<close>. \<open>recorded s g k\<close> is the source and the
  value the option \<open>k\<close> of the config \<open>g\<close> is recorded with while the claims of \<open>s\<close>
  are resolved: those it has in \<open>s\<close> already (from \<open>setup\<close>), and else those of the
  first claim that names it. The conflicts of a claim are its options, in order, whose
  value differs from the recorded one, each as the error that names the option, the
  value, the claim, the recorded source and the recorded value; the conflicts of an
  arbitrator are those of its configs and claims in the order the phase goes through
  them.
\<close>

fun first_claim :: "(string \<times> 'v pydict) list \<Rightarrow> string \<Rightarrow> (string \<times> 'v) option" where
  "first_claim [] k = None"
| "first_claim ((f, opts) # rest) k =
     (case map_of opts k of Some v \<Rightarrow> Some (f, v) | None \<Rightarrow> first_claim rest k)"

definition claims_of :: "('v, 'f) arbitrator \<Rightarrow> string \<Rightarrow> (string \<times> 'v pydict) list" where
  "claims_of s g = (case map_of (func_claims s) g of None \<Rightarrow> [] | Some funcs \<Rightarrow> funcs)"

definition recorded :: "('v, 'f) arbitrator \<Rightarrow> string \<Rightarrow> string \<Rightarrow> (string \<times> 'v) option" where
  "recorded s g k =
     (case vc_lookup s g k of
        Some cur \<Rightarrow> (case source_lookup s g k of Some src \<Rightarrow> Some (src, cur) | None \<Rightarrow> None)
      | None \<Rightarrow> first_claim (claims_of s g) k)"

fun option_conflicts ::
  "(string \<Rightarrow> (string \<times> 'v) option) \<Rightarrow> string \<Rightarrow> 'v pydict \<Rightarrow> 'v error list" where
  "option_conflicts rec f [] = []"
| "option_conflicts rec f ((k, v) # rest) =
     (case rec k of
        Some (src, cur) \<Rightarrow> (if cur \<noteq> v then [ConfigArbitrateError k v f src cur] else [])
      | None \<Rightarrow> [])
     @ option_conflicts rec f rest"

fun claim_conflicts ::
  "(string \<Rightarrow> (string \<times> 'v) option) \<Rightarrow> (string \<times> 'v pydict) list \<Rightarrow> 'v error list" where
  "claim_conflicts rec [] = []"
| "claim_conflicts rec ((f, opts) # rest) = option_conflicts rec f opts @ claim_conflicts rec rest"

fun phase_conflicts ::
  "(string \<Rightarrow> string \<Rightarrow> (string \<times> 'v) option) \<Rightarrow> (string \<times> 'v pydict) list pydict
     \<Rightarrow> 'v error list" where
  "phase_conflicts recs [] = []"
| "phase_conflicts recs ((g, funcs) # rest) =
     claim_conflicts (recs g) funcs @ phase_conflicts recs rest"

definition all_conflicts :: "('v, 'f) arbitrator \<Rightarrow> 'v error list" where
  "all_conflicts s = phase_conflicts (recorded s) (func_claims s)"

text \<open>
  While the claims of one config are resolved, the dictionaries at \<open>r\<close> hold a part
  of what is recorded: an option they hold has the recorded value and source, and an
  option they do not hold yet is recorded as the claims still to come (\<open>todo\<close>) give
  it. \<open>pending f opts todo\<close> is what the options \<open>opts\<close> of the claim \<open>f\<close> give before
  the claims still to come.
\<close>

definition tracks ::
  "('v, 'f) arbitrator \<Rightarrow> ref \<Rightarrow> (string \<Rightarrow> (string \<times> 'v) option)
     \<Rightarrow> (string \<Rightarrow> (string \<times> 'v) option) \<Rightarrow> bool" where
  "tracks t r rec todo \<longleftrightarrow>
     (\<forall>k. case heap_get (cfg_heap t) r k of
             Some cur \<Rightarrow> (\<exists>src. heap_get (src_heap t) r k = Some src \<and> rec k = Some (src, cur))
           | None \<Rightarrow> rec k = todo k)"

definition pending ::
  "string \<Rightarrow> 'v pydict \<Rightarrow> (string \<Rightarrow> (string \<times> 'v) option) \<Rightarrow> string \<Rightarrow> (string \<times> 'v) option" where
  "pending f opts todo k = (case map_of opts k of Some v \<Rightarrow> Some (f, v) | None \<Rightarrow> todo k)"

section \<open>The build pipeline\<close>

text \<open>
  \<open>ModelLoader.BuildPipeline\<close>. A step handler is an opaque callable; what a call of
  it does is given with the step: it returns, and the two readings of \<open>time.time()\<close>
  around the step then differ by the latency given, or it raises. The pipeline keeps
  the labels, the handlers, the counter and the list \<open>build_steps_info\<close> of the
  \<open>LlmBuildStats\<close> it was given; its trace records the calls of handlers (by index)
  and of \<open>release_gc\<close>, and for the \<open>ModelLoader\<close> around it the call of
  \<open>ModelLoader.save\<close>. The progress bar and the printing leave no mark in the model.
\<close>

datatype ('e, 'l) outcome = Returns 'l | Raises 'e

datatype pevent = Handler nat | ReleaseGc | SaveEngine string

datatype 'e pipeline_error =
    LengthAssertion | IndexError | Raised 'e | EngineDirAssertion | ModelDirRequired

record ('e, 'l) build_pipeline =
  labels :: "string list"
  step_handlers :: "('e, 'l) outcome list"
  build_steps_info :: "(string \<times> 'l) list"
  counter :: nat
  ptrace :: "pevent list"

text \<open>\<open>__init__\<close>: \<open>assert len(labels) == len(step_handlers)\<close>, the counter at 0.\<close>

definition BuildPipeline_init ::
  "string list \<Rightarrow> ('e, 'l) outcome list \<Rightarrow> (string \<times> 'l) list
     \<Rightarrow> 'e pipeline_error + ('e, 'l) build_pipeline" where
  "BuildPipeline_init ls hs info =
     (if length ls = length hs
      then Inr \<lparr>labels = ls, step_handlers = hs, build_steps_info = info, counter = 0, ptrace = []\<rparr>
      else Inl LengthAssertion)"

text \<open>
  \<open>step_forward\<close>: the label and the handler at the counter (an index out of range
  raises), the call of the handler, then \<open>release_gc()\<close>, the append of
  \<open>(label, latency)\<close> and the increment. An exception of the handler leaves the
  method at the call. The result is the exception, if any, and the pipeline as the
  method left it.
\<close>

definition step_forward ::
  "('e, 'l) build_pipeline \<Rightarrow> 'e pipeline_error option \<times> ('e, 'l) build_pipeline" where
  "step_forward p =
     (if counter p < length (labels p) \<and> counter p < length (step_handlers p)
      then (case step_handlers p ! counter p of
              Raises e \<Rightarrow> (Some (Raised e), p\<lparr>ptrace := ptrace p @ [Handler (counter p)]\<rparr>)
            | Returns latency \<Rightarrow>
                (None,
                 p\<lparr>ptrace := ptrace p @ [Handler (counter p), ReleaseGc],
                   build_steps_info := build_steps_info p @ [(labels p ! counter p, latency)],
                   counter := counter p + 1\<rparr>))
      else (Some IndexError, p))"

text \<open>\<open>__call__\<close>: \<open>for i in range(len(self.labels)): self.step_forward()\<close>.\<close>

fun run_steps ::
  "nat \<Rightarrow> ('e, 'l) build_pipeline \<Rightarrow> 'e pipeline_error option \<times> ('e, 'l) build_pipeline" where
  "run_steps 0 p = (None, p)"
| "run_steps (Suc n) p =
     (case step_forward p of
        (Some e, p') \<Rightarrow> (Some e, p')
      | (None, p') \<Rightarrow> run_steps n p')"

definition BuildPipeline_call ::
  "('e, 'l) build_pipeline \<Rightarrow> 'e pipeline_error option \<times> ('e, 'l) build_pipeline" where
  "BuildPipeline_call p = run_steps (length (labels p)) p"

text \<open>
  For stating what a run did: whether a handler returns, the number of handlers that
  return before the first one that raises, their latencies, and the exception of the
  first handler that raises.
\<close>

fun returns :: "('e, 'l) outcome \<Rightarrow> bool" where
  "returns (Returns l) = True"
| "returns (Raises e) = False"

definition completed :: "('e, 'l) outcome list \<Rightarrow> nat" where
  "completed hs = length (takeWhile returns hs)"

fun latencies :: "('e, 'l) outcome list \<Rightarrow> 'l list" where
  "latencies [] = []"
| "latencies (Returns l # hs) = l # latencies hs"
| "latencies (Raises e # hs) = []"

fun first_raised :: "('e, 'l) outcome list \<Rightarrow> 'e pipeline_error option" where
  "first_raised [] = None"
| "first_raised (Returns l # hs) = first_raised hs"
| "first_raised (Raises e # hs) = Some (Raised e)"

text \<open>The two steps of a Hugging Face model, the second of which raises.\<close>

definition failing_build :: "(string, nat) build_pipeline" where
  "failing_build =
     \<lparr>labels = [''Loading HF model to memory'', ''Building TRT-LLM engine''],
      step_handlers = [Returns 7, Raises ''out of memory''],
      build_steps_info = [], counter = 0, ptrace = []\<rparr>"

section \<open>The cached model loader\<close>

text \<open>
  \<open>CachedModelLoader\<close>. The loader's own code is modelled: \<open>__call__\<close>,
  \<open>get_engine_dir\<close>, \<open>build_cache_enabled\<close>, \<open>_get_engine_cache_stage\<close> (its
  assertion and its lookup) and \<open>_build_model\<close>. What it calls outside this file is
  a parameter, collected in \<open>build_env\<close>: the flag of
  \<open>get_build_cache_config_from_env()\<close>, the directory
  \<open>download_hf_pretrained_config\<close> returns, the cache stage that
  \<open>BuildCache.get_engine_building_cache_stage\<close> returns (its \<open>get_engine_path()\<close>,
  its \<open>is_cached()\<close>, the directory its \<open>write_guard()\<close> yields), the readings of
  \<open>free_storage_in_gb()\<close> and \<open>get_directory_size_in_gb\<close>, each a number or an
  exception, and for every engine directory whether the build into it (the
  \<open>ModelLoader\<close> run of \<open>build_task\<close>) returns or raises. Paths are strings.
\<close>

type_synonym path = string

datatype ModelFormatKind = HF | TLLM_CKPT | TLLM_ENGINE

datatype model_ref = LocalPath path | HubName string

text \<open>
  \<open>llm_args.enable_build_cache\<close> is a \<open>bool\<close> or a \<open>BuildCacheConfig\<close>; \<open>or\<close> and
  \<open>and\<close> return one of their operands, and \<open>if\<close> tests its truth value.
\<close>

datatype pyval = PyBool bool | PyObject

fun truthy :: "pyval \<Rightarrow> bool" where
  "truthy (PyBool b) = b"
| "truthy PyObject = True"

definition py_or :: "pyval \<Rightarrow> pyval \<Rightarrow> pyval" where
  "py_or a b = (if truthy a then a else b)"

definition py_and :: "pyval \<Rightarrow> pyval \<Rightarrow> pyval" where
  "py_and a b = (if truthy a then b else a)"

definition py_not :: "pyval \<Rightarrow> pyval" where
  "py_not a = PyBool (\<not> truthy a)"

datatype 's reading = Reads 's | RaisesValueError | RaisesException

datatype cevent =
    DownloadConfig | StageLookup | IsCachedQuery
  | GuardEnter | GuardPublish | GuardDiscard | BuildTask path

datatype 'e loader_error =
    ModelDirAssertion | HfModelDirAssertion | AttributeError | BuildRaised 'e

record ('s, 'e) build_env =
  env_enable_build_cache :: bool
  downloaded_config_dir :: path
  stage_engine_path :: path
  stage_is_cached :: bool
  guard_dir :: path
  free_storage :: "'s reading"
  model_size :: "'s reading"
  build_outcome :: "path \<Rightarrow> 'e option"

text \<open>
  The loader: the fields of \<open>llm_args\<close> it reads, its workspace, \<open>_hf_model_dir\<close>,
  whether \<open>engine_cache_stage\<close> holds a stage, the fields of \<open>llm_build_stats\<close> it
  writes, and the trace of what it did to the cache and of the builds.
\<close>

record loader =
  enable_build_cache :: pyval
  model_format :: ModelFormatKind
  auto_parallel :: bool
  model :: model_ref
  workspace :: path
  hf_model_dir :: "path option"
  has_cache_stage :: bool
  cache_hitted :: bool
  cache_info :: "string option"
  engine_dir :: "path option"
  levents :: "cevent list"

definition is_local_model :: "loader \<Rightarrow> bool" where
  "is_local_model l = (case model l of LocalPath p \<Rightarrow> True | HubName n \<Rightarrow> False)"

text \<open>\<open>llm_args.model_dir\<close>: \<open>assert self.is_local_model\<close>.\<close>

definition model_dir :: "loader \<Rightarrow> 'e loader_error + path" where
  "model_dir l = (case model l of LocalPath p \<Rightarrow> Inr p | HubName n \<Rightarrow> Inl ModelDirAssertion)"

text \<open>
  \<open>build_cache_enabled\<close>:
  \<open>(enable_build_cache or _enable_build_cache) and (model_format is HF) and not auto_parallel\<close>.
\<close>

definition build_cache_enabled :: "('s, 'e) build_env \<Rightarrow> loader \<Rightarrow> pyval" where
  "build_cache_enabled env l =
     py_and
       (py_and (py_or (enable_build_cache l) (PyBool (env_enable_build_cache env)))
               (PyBool (model_format l = HF)))
       (py_not (PyBool (auto_parallel l)))"

text \<open>\<open>_get_engine_cache_stage\<close>: \<open>assert self._hf_model_dir is not None\<close>, then the lookup.\<close>

definition get_engine_cache_stage :: "loader \<Rightarrow> ('e loader_error + unit) \<times> loader" where
  "get_engine_cache_stage l =
     (case hf_model_dir l of
        None \<Rightarrow> (Inl HfModelDirAssertion, l)
      | Some d \<Rightarrow> (Inr (), l\<lparr>levents := levents l @ [StageLookup]\<rparr>))"

definition get_engine_dir ::
  "('s, 'e) build_env \<Rightarrow> loader \<Rightarrow> ('e loader_error + path) \<times> loader" where
  "get_engine_dir env l =
     (if model_format l = TLLM_ENGINE then (model_dir l, l)
      else if truthy (build_cache_enabled env l)
      then (case get_engine_cache_stage l of
              (Inl e, l') \<Rightarrow> (Inl e, l')
            | (Inr u, l') \<Rightarrow> (Inr (stage_engine_path env), l'))
      else (Inr (workspace l @ ''/tmp.engine''), l))"

text \<open>\<open>build_task\<close> of \<open>_build_model\<close>: the build, unless the model is an engine.\<close>

definition build_task ::
  "('s, 'e) build_env \<Rightarrow> path \<Rightarrow> loader \<Rightarrow> 'e loader_error option \<times> loader" where
  "build_task env dir l =
     (if model_format l \<noteq> TLLM_ENGINE
      then (case build_outcome env dir of
              Some e \<Rightarrow> (Some (BuildRaised e), l\<lparr>levents := levents l @ [BuildTask dir]\<rparr>)
            | None \<Rightarrow> (None, l\<lparr>levents := levents l @ [BuildTask dir]\<rparr>))
      else (None, l))"

text \<open>
  The storage check of \<open>_build_model\<close>, inside \<open>try\<close>: for a local model
  \<open>free_storage_in_gb() >= get_directory_size_in_gb(model_dir)\<close>, and \<open>False\<close> on any
  exception (also that of a missing stage); \<open>True\<close> for a hub model.
\<close>

definition has_storage :: "('s::linorder, 'e) build_env \<Rightarrow> loader \<Rightarrow> bool" where
  "has_storage env l =
     (if is_local_model l
      then (if has_cache_stage l
            then (case free_storage env of
                    Reads free \<Rightarrow>
                      (case model_size env of Reads needed \<Rightarrow> free \<ge> needed | _ \<Rightarrow> False)
                  | _ \<Rightarrow> False)
            else False)
      else True)"

text \<open>
  \<open>with self.engine_cache_stage.write_guard() as engine_dir: build_task(engine_dir);
  self.llm_build_stats.cache_hitted = True\<close>. The guard is entered, and left by
  publishing or, on an exception, by discarding.
\<close>

definition guarded_build ::
  "('s, 'e) build_env \<Rightarrow> loader \<Rightarrow> 'e loader_error option \<times> loader" where
  "guarded_build env l =
     (if has_cache_stage l
      then (case build_task env (guard_dir env) (l\<lparr>levents := levents l @ [GuardEnter]\<rparr>) of
              (Some e, l') \<Rightarrow> (Some e, l'\<lparr>levents := levents l' @ [GuardDiscard]\<rparr>)
            | (None, l') \<Rightarrow>
                (None, l'\<lparr>cache_hitted := True, levents := levents l' @ [GuardPublish]\<rparr>))
      else (Some AttributeError, l))"

definition build_model ::
  "('s::linorder, 'e) build_env \<Rightarrow> loader \<Rightarrow> ('e loader_error + path) \<times> loader" where
  "build_model env l =
     (let enabled = truthy (build_cache_enabled env l);
          storage = (if enabled then has_storage env l else True)
      in case (if enabled
               then (if storage then guarded_build env l
                     else (None, l\<lparr>cache_hitted := False,
                                   cache_info := Some ''The cache root directory is too small.''\<rparr>))
               else (None, l)) of
           (Some e, l1) \<Rightarrow> (Inl e, l1)
         | (None, l1) \<Rightarrow>
             (case (if \<not> (storage \<and> truthy (build_cache_enabled env l1))
                    then (case get_engine_dir env l1 of
                            (Inl e, l2) \<Rightarrow> (Some e, l2)
                          | (Inr dir, l2) \<Rightarrow> build_task env dir l2)
                    else (None, l1)) of
                (Some e, l3) \<Rightarrow> (Inl e, l3)
              | (None, l3) \<Rightarrow> get_engine_dir env l3))"

definition CachedModelLoader_call ::
  "('s::linorder, 'e) build_env \<Rightarrow> loader \<Rightarrow> ('e loader_error + path) \<times> loader" where
  "CachedModelLoader_call env l =
     (if model_format l = TLLM_ENGINE then (model_dir l, l)
      else
        let l0 = l\<lparr>has_cache_stage := False\<rparr> in
        if truthy (build_cache_enabled env l0)
        then
          let l1 = (case model l0 of
                      HubName n \<Rightarrow>
                        l0\<lparr>hf_model_dir := Some (downloaded_config_dir env),
                           levents := levents l0 @ [DownloadConfig]\<rparr>
                    | LocalPath p \<Rightarrow>
                        l0\<lparr>hf_model_dir := (if model_format l0 = HF then Some p else None)\<rparr>)
          in case get_engine_cache_stage l1 of
               (Inl e, l2) \<Rightarrow> (Inl e, l2)
             | (Inr u, l2) \<Rightarrow>
                 (let l3 = l2\<lparr>has_cache_stage := True, levents := levents l2 @ [IsCachedQuery]\<rparr>
                  in if stage_is_cached env
                     then (Inr (stage_engine_path env),
                           l3\<lparr>cache_hitted := True, model := LocalPath (stage_engine_path env),
                              engine_dir := Some (stage_engine_path env)\<rparr>)
                     else build_model env l3)
        else build_model env l0)"

text \<open>
  The loader as \<open>__call__\<close> hands it to \<open>_build_model\<close> when the build cache is
  enabled for a Hugging Face model and the stage holds no engine: the model directory
  set (downloaded for a hub model), the stage looked up and asked.
\<close>

definition staged :: "('s, 'e) build_env \<Rightarrow> loader \<Rightarrow> loader" where
  "staged env l =
     (case model l of
        HubName n \<Rightarrow>
          l\<lparr>hf_model_dir := Some (downloaded_config_dir env), has_cache_stage := True,
            levents := levents l @ [DownloadConfig, StageLookup, IsCachedQuery]\<rparr>
      | LocalPath p \<Rightarrow>
          l\<lparr>hf_model_dir := Some p, has_cache_stage := True,
            levents := levents l @ [StageLookup, IsCachedQuery]\<rparr>)"

text \<open>Whether an event touches the build cache.\<close>

fun cache_event :: "cevent \<Rightarrow> bool" where
  "cache_event (BuildTask dir) = False"
| "cache_event ev = True"

text \<open>
  A local Hugging Face model of 5 GB with the build cache enabled, a cache root with
  1 GB free, and with 10 GB free; no engine is cached and every build returns.
\<close>

definition local_hf :: loader where
  "local_hf =
     \<lparr>enable_build_cache = PyObject, model_format = HF, auto_parallel = False,
      model = LocalPath ''/models/llama'', workspace = ''/tmp/ws'', hf_model_dir = None,
      has_cache_stage = False, cache_hitted = False, cache_info = None, engine_dir = None,
      levents = []\<rparr>"

definition small_cache :: "(nat, string) build_env" where
  "small_cache =
     \<lparr>env_enable_build_cache = False, downloaded_config_dir = ''/hub/llama'',
      stage_engine_path = ''/cache/key/content'', stage_is_cached = False,
      guard_dir = ''/cache/key.dummy/content'', free_storage = Reads 1, model_size = Reads 5,
      build_outcome = (\<lambda>dir. None)\<rparr>"

definition large_cache :: "(nat, string) build_env" where
  "large_cache = small_cache\<lparr>free_storage := Reads 10\<rparr>"

section \<open>The model loader around the build pipeline\<close>

text \<open>
  \<open>ModelLoader\<close>, as far as it runs the pipeline: the model format, \<open>llm_args.model_dir\<close>
  (none for a model that is not local), the list \<open>_build_pipeline\<close> of
  \<open>(label, handler)\<close> in the order \<open>_gather_build_steps\<close> appended them, the list
  \<open>build_steps_info\<close> of its \<open>llm_build_stats\<close> (an object the caller holds too),
  whether \<open>ModelLoader.save\<close> raises, and the trace.
\<close>

record ('e, 'l) model_loader =
  ml_model_format :: ModelFormatKind
  ml_model_dir :: "path option"
  ml_build_pipeline :: "(string \<times> ('e, 'l) outcome) list"
  ml_build_steps_info :: "(string \<times> 'l) list"
  ml_save :: "'e option"
  ml_trace :: "pevent list"

text \<open>
  \<open>ModelLoader.__call__\<close>: an engine is returned as it is; otherwise the pipeline is
  built from the labels and the handlers of \<open>_build_pipeline\<close> and called, then
  \<open>assert engine_dir\<close>, then the engine is saved. \<open>torch.cuda.set_device\<close> leaves no
  mark in the model.
\<close>

definition ModelLoader_call ::
  "('e, 'l) model_loader \<Rightarrow> path option \<Rightarrow> ('e pipeline_error + path) \<times> ('e, 'l) model_loader" where
  "ModelLoader_call ml edir =
     (if ml_model_format ml = TLLM_ENGINE
      then (case ml_model_dir ml of
              None \<Rightarrow> (Inl ModelDirRequired, ml)
            | Some d \<Rightarrow> (Inr d, ml))
      else
        (case BuildPipeline_init (map fst (ml_build_pipeline ml)) (map snd (ml_build_pipeline ml))
                (ml_build_steps_info ml) of
           Inl e \<Rightarrow> (Inl e, ml)
         | Inr pipeline \<Rightarrow>
             (case BuildPipeline_call pipeline of
                (Some e, p') \<Rightarrow>
                  (Inl e, ml\<lparr>ml_build_steps_info := build_steps_info p',
                             ml_trace := ml_trace ml @ ptrace p'\<rparr>)
              | (None, p') \<Rightarrow>
                  (case edir of
                     None \<Rightarrow>
                       (Inl EngineDirAssertion,
                        ml\<lparr>ml_build_steps_info := build_steps_info p',
                           ml_trace := ml_trace ml @ ptrace p'\<rparr>)
                   | Some d \<Rightarrow>
                       (case ml_save ml of
                          Some e \<Rightarrow>
                            (Inl (Raised e),
                             ml\<lparr>ml_build_steps_info := build_steps_info p',
                                ml_trace := ml_trace ml @ ptrace p' @ [SaveEngine d]\<rparr>)
                        | None \<Rightarrow>
                            (Inr d,
                             ml\<lparr>ml_build_steps_info := build_steps_info p',
                                ml_trace := ml_trace ml @ ptrace p' @ [SaveEngine d]\<rparr>))))))"

text \<open>
  \<open>with ModelLoader(...) as model_loader: model_loader(engine_dir=engine_dir)\<close>, the
  one way the loader is called (in \<open>build_task\<close> and in \<open>_node_build_task\<close>):
  \<open>__enter__\<close> returns the loader, and \<open>__exit__\<close> runs however the body ends, clears
  the attributes of the loader, calls \<open>release_gc()\<close> and returns \<open>None\<close>, so that an
  exception of the body goes on. The statistics are an object of the caller and stay.
\<close>

definition with_ModelLoader ::
  "('e, 'l) model_loader \<Rightarrow> path option \<Rightarrow> ('e pipeline_error + path) \<times> ('e, 'l) model_loader" where
  "with_ModelLoader ml edir =
     (case ModelLoader_call ml edir of
        (res, ml') \<Rightarrow> (res, ml'\<lparr>ml_trace := ml_trace ml' @ [ReleaseGc]\<rparr>))"

text \<open>
  For stating what a run did: the number of steps a run calls (those that return
  before the first that raises, and that one), which events are calls of a step, and
  whether every call of a step in a trace is directly followed by \<open>release_gc\<close>.
\<close>

definition steps_called :: "('e, 'l) outcome list \<Rightarrow> nat" where
  "steps_called hs = min (Suc (completed hs)) (length hs)"

fun is_step :: "pevent \<Rightarrow> bool" where
  "is_step (Handler j) = True"
| "is_step ev = False"

fun released_after_each :: "pevent list \<Rightarrow> bool" where
  "released_after_each [] = True"
| "released_after_each (Handler j # ReleaseGc # tr) = released_after_each tr"
| "released_after_each (Handler j # tr) = False"
| "released_after_each (ev # tr) = released_after_each tr"

text \<open>
  The loader of a local Hugging Face model whose second step raises, and one whose
  steps both return.
\<close>

definition failing_loader :: "(string, nat) model_loader" where
  "failing_loader =
     \<lparr>ml_model_format = HF, ml_model_dir = Some ''/models/llama'',
      ml_build_pipeline = [(''Loading HF model to memory'', Returns 7),
                           (''Building TRT-LLM engine'', Raises ''out of memory'')],
      ml_build_steps_info = [], ml_save = None, ml_trace = []\<rparr>"

definition building_loader :: "(string, nat) model_loader" where
  "building_loader =
     failing_loader\<lparr>ml_build_pipeline := [(''Loading HF model to memory'', Returns 7),
                                          (''Building TRT-LLM engine'', Returns 90)]\<rparr>"

section \<open>Model formats\<close>

text \<open>
  A Python value as \<open>json.load\<close> returns it and as \<open>json.dumps\<close> takes it: \<open>None\<close>, a
  \<open>bool\<close>, an \<open>int\<close>, a \<open>float\<close> (held as the text \<open>float.__repr__\<close> gives for it), a
  \<open>str\<close>, a \<open>list\<close>, a \<open>dict\<close> with \<open>str\<close> keys in insertion order, or any other
  object.
\<close>

datatype json =
    JNull | JBool bool | JInt int | JFloat string | JStr string
  | JList "json list" | JDict "(string \<times> json) list" | JOther

text \<open>\<open>sub in s\<close> for two strings: \<open>sub\<close> occurs in \<open>s\<close>.\<close>

fun contains_str :: "string \<Rightarrow> string \<Rightarrow> bool" where
  "contains_str sub [] = (sub = [])"
| "contains_str sub (c # s) = (prefix sub (c # s) \<or> contains_str sub s)"

text \<open>
  \<open>k in config\<close>: a key of a \<open>dict\<close>, an element of a \<open>list\<close>, a substring of a \<open>str\<close>;
  on anything else a \<open>TypeError\<close>, here \<open>None\<close>.
\<close>

definition py_in :: "string \<Rightarrow> json \<Rightarrow> bool option" where
  "py_in k config =
     (case config of
        JDict kvs \<Rightarrow> Some (k \<in> set (map fst kvs))
      | JList xs \<Rightarrow> Some (JStr k \<in> set xs)
      | JStr s \<Rightarrow> Some (contains_str k s)
      | _ \<Rightarrow> None)"

text \<open>\<open>a in config and b in config\<close>: the second test only when the first holds.\<close>

definition both_in :: "string \<Rightarrow> string \<Rightarrow> json \<Rightarrow> bool option" where
  "both_in a b config =
     (case py_in a config of
        None \<Rightarrow> None
      | Some False \<Rightarrow> Some False
      | Some True \<Rightarrow> py_in b config)"

text \<open>
  What \<open>get_model_format\<close> calls outside this file, for every path: whether the file
  exists, what \<open>open\<close> and \<open>json.load\<close> give for it (the value, or an exception), and
  whether \<open>EngineConfig.from_json_file\<close>, \<open>PretrainedConfig.from_checkpoint\<close> and
  \<open>AutoConfig.from_hugging_face\<close> return, raise an \<open>Exception\<close>, or raise something
  that is no \<open>Exception\<close> (a \<open>KeyboardInterrupt\<close>). Exceptions are held as their text.
\<close>

datatype loading = Loads | LoadRaises string | LoadAborts string

record model_files =
  file_exists :: "path \<Rightarrow> bool"
  json_load :: "path \<Rightarrow> string + json"
  EngineConfig_from_json_file :: "path \<Rightarrow> loading"
  PretrainedConfig_from_checkpoint :: "path \<Rightarrow> loading"
  AutoConfig_from_hugging_face :: "path \<Rightarrow> loading"

datatype format_error = ValueError string | UnboundLocalError | Propagated string

fun format_name :: "ModelFormatKind \<Rightarrow> string" where
  "format_name HF = ''_ModelFormatKind.HF''"
| "format_name TLLM_CKPT = ''_ModelFormatKind.TLLM_CKPT''"
| "format_name TLLM_ENGINE = ''_ModelFormatKind.TLLM_ENGINE''"

text \<open>
  The body of the \<open>try\<close>: \<open>model_format\<close> is bound and then the matching loader is
  called; an exception of a test leaves \<open>model_format\<close> unbound.
\<close>

datatype inference = Inferred ModelFormatKind loading | Uninferred

definition infer_format :: "model_files \<Rightarrow> path \<Rightarrow> json \<Rightarrow> inference" where
  "infer_format fs dir config =
     (case both_in ''pretrained_config'' ''build_config'' config of
        None \<Rightarrow> Uninferred
      | Some True \<Rightarrow>
          Inferred TLLM_ENGINE (EngineConfig_from_json_file fs (dir @ ''/config.json''))
      | Some False \<Rightarrow>
          (case both_in ''architecture'' ''dtype'' config of
             None \<Rightarrow> Uninferred
           | Some True \<Rightarrow> Inferred TLLM_CKPT (PretrainedConfig_from_checkpoint fs dir)
           | Some False \<Rightarrow> Inferred HF (AutoConfig_from_hugging_face fs dir)))"

text \<open>
  \<open>ModelLoader.get_model_format\<close>. The handler \<open>except Exception\<close> formats
  \<open>model_format\<close> into its message, so with \<open>model_format\<close> unbound it raises
  \<open>UnboundLocalError\<close> itself.
\<close>

definition get_model_format :: "model_files \<Rightarrow> path \<Rightarrow> format_error + ModelFormatKind" where
  "get_model_format fs dir =
     (if \<not> file_exists fs (dir @ ''/config.json'')
      then Inl (ValueError
             (''Failed to infer model format because no config.json exists in '' @ dir))
      else
        (case json_load fs (dir @ ''/config.json'') of
           Inl e \<Rightarrow> Inl (Propagated e)
         | Inr config \<Rightarrow>
             (case infer_format fs dir config of
                Uninferred \<Rightarrow> Inl UnboundLocalError
              | Inferred fmt Loads \<Rightarrow> Inr fmt
              | Inferred fmt (LoadRaises e) \<Rightarrow>
                  Inl (ValueError
                    (''Inferred model format '' @ format_name fmt
                     @ '', but failed to load config.json: '' @ e))
              | Inferred fmt (LoadAborts e) \<Rightarrow> Inl (Propagated e))))"

text \<open>
  A store with an engine directory, a checkpoint directory, a Hugging Face
  directory, a checkpoint directory whose config does not load, and nothing else.
\<close>

definition model_store :: model_files where
  "model_store =
     \<lparr>file_exists = (\<lambda>p. p \<in> set [''/m/engine/config.json'', ''/m/ckpt/config.json'',
                                    ''/m/hf/config.json'', ''/m/bad/config.json'']),
      json_load = (\<lambda>p.
        if p = ''/m/engine/config.json''
        then Inr (JDict [(''version'', JStr ''0.12''), (''pretrained_config'', JDict []),
                         (''build_config'', JDict [])])
        else if p = ''/m/ckpt/config.json'' \<or> p = ''/m/bad/config.json''
        then Inr (JDict [(''architecture'', JStr ''LlamaForCausalLM''),
                         (''dtype'', JStr ''float16'')])
        else if p = ''/m/hf/config.json''
        then Inr (JDict [(''architectures'', JList [JStr ''LlamaForCausalLM'']),
                         (''torch_dtype'', JStr ''float16'')])
        else Inl ''FileNotFoundError''),
      EngineConfig_from_json_file = (\<lambda>p. Loads),
      PretrainedConfig_from_checkpoint =
        (\<lambda>p. if p = ''/m/bad'' then LoadRaises ''KeyError: mapping'' else Loads),
      AutoConfig_from_hugging_face = (\<lambda>p. Loads)\<rparr>"

section \<open>The key of the engine cache\<close>

text \<open>
  \<open>json.dumps(dic, sort_keys=True)\<close> with its defaults otherwise: the separators
  \<open>', '\<close> and \<open>': '\<close>, strings escaped to ASCII, the items of a \<open>dict\<close> sorted by key,
  and \<open>TypeError\<close> (here \<open>None\<close>) for an object that is none of the JSON types.
\<close>

definition hex_digit :: "nat \<Rightarrow> char" where
  "hex_digit n = ''0123456789abcdef'' ! (n mod 16)"

text \<open>\<open>'\\u{0:04x}'.format(n)\<close> for a character code.\<close>

definition unicode_escape :: "nat \<Rightarrow> string" where
  "unicode_escape n =
     [CHR 0x5C, CHR ''u'', hex_digit (n div 4096), hex_digit (n div 256),
      hex_digit (n div 16), hex_digit n]"

definition escape_char :: "char \<Rightarrow> string" where
  "escape_char c =
     (if c = CHR 0x5C then [CHR 0x5C, CHR 0x5C]
      else if c = CHR 0x22 then [CHR 0x5C, CHR 0x22]
      else if c = CHR 0x08 then [CHR 0x5C, CHR ''b'']
      else if c = CHR 0x0C then [CHR 0x5C, CHR ''f'']
      else if c = CHR 0x0A then [CHR 0x5C, CHR ''n'']
      else if c = CHR 0x0D then [CHR 0x5C, CHR ''r'']
      else if c = CHR 0x09 then [CHR 0x5C, CHR ''t'']
      else if 32 \<le> (of_char c :: nat) \<and> (of_char c :: nat) \<le> 126 then [c]
      else unicode_escape (of_char c))"

definition encode_basestring_ascii :: "string \<Rightarrow> string" where
  "encode_basestring_ascii s = [CHR 0x22] @ concat (map escape_char s) @ [CHR 0x22]"

fun digits :: "nat \<Rightarrow> string" where
  "digits n = (if n < 10 then [hex_digit n] else digits (n div 10) @ [hex_digit (n mod 10)])"

definition int_repr :: "int \<Rightarrow> string" where
  "int_repr i = (if i < 0 then ''-'' @ digits (nat (- i)) else digits (nat i))"

fun join :: "string \<Rightarrow> string list \<Rightarrow> string" where
  "join sep [] = []"
| "join sep [s] = s"
| "join sep (s # t # ss) = s @ sep @ join sep (t # ss)"

function dumps :: "json \<Rightarrow> string option" where
  "dumps JNull = Some ''null''"
| "dumps (JBool b) = Some (if b then ''true'' else ''false'')"
| "dumps (JInt i) = Some (int_repr i)"
| "dumps (JFloat r) = Some r"
| "dumps (JStr s) = Some (encode_basestring_ascii s)"
| "dumps (JList xs) =
     map_option (\<lambda>ss. ''['' @ join '', '' ss @ '']'') (those (map dumps xs))"
| "dumps (JDict kvs) =
     map_option (\<lambda>ss. ''{'' @ join '', '' ss @ ''}'')
       (those (map (\<lambda>(k, v). map_option (\<lambda>s. encode_basestring_ascii k @ '': '' @ s) (dumps v))
                   (sort_key fst kvs)))"
| "dumps JOther = None"
  by pat_completeness auto
termination
proof (relation "measure size")
  fix kvs :: "(string \<times> json) list" and x :: "string \<times> json" and k v
  assume "x \<in> set (sort_key fst kvs)" "(k, v) = x"
  hence "(k, v) \<in> set kvs" by simp
  hence "size v < Suc (size_list (size_prod (\<lambda>x. 0) size) kvs)"
    by (induction kvs) auto
  thus "(v, JDict kvs) \<in> measure size" by simp
qed (auto simp: less_Suc_eq_le size_list_estimation')


text \<open>
  Two values are the same configuration when they differ at most in the order in
  which the keys of their dictionaries were inserted.
\<close>

fun same_value :: "json \<Rightarrow> json \<Rightarrow> bool" where
  "same_value (JList xs) (JList ys) = list_all2 same_value xs ys"
| "same_value (JDict kvs) (JDict kvs') =
     (set (map fst kvs) = set (map fst kvs')
      \<and> (\<forall>(k, v) \<in> set kvs. \<forall>(k', v') \<in> set kvs'. k = k' \<longrightarrow> same_value v v'))"
| "same_value a b = (a = b)"

text \<open>A \<open>dict\<close> holds every key once; the lists that stand for them must too.\<close>

fun unique_keys :: "json \<Rightarrow> bool" where
  "unique_keys (JList xs) = list_all unique_keys xs"
| "unique_keys (JDict kvs) = (distinct (map fst kvs) \<and> list_all (\<lambda>(k, v). unique_keys v) kvs)"
| "unique_keys a = True"



text \<open>
  \<open>BuildConfig\<close> with its \<open>plugin_config\<close> apart from its other fields, and what
  \<open>_get_engine_cache_stage\<close> reads: \<open>llm_args.build_config\<close>, \<open>asdict\<close> of
  \<open>llm_args.parallel_config\<close> and of \<open>llm_args.quant_config\<close>, and \<open>to_dict()\<close> of the
  \<open>PretrainedConfig\<close> that \<open>get_pretrained_config\<close> returns.
\<close>

record build_config =
  bc_options :: json
  bc_plugin_config :: json

record cache_inputs =
  ci_build_config :: build_config
  ci_parallel_config :: json
  ci_pretrained_config :: json
  ci_quant_config :: json

text \<open>The arguments of \<open>build_cache.get_engine_building_cache_stage\<close>.\<close>

record stage_request =
  sr_build_config :: build_config
  sr_model_path :: path
  sr_force_rebuild :: bool
  sr_parallel_config :: string
  sr_pretrained_config :: string
  sr_quant_config :: string

datatype stage_error = HfModelDirRequired | NotSerializable

text \<open>\<open>serialize\<close> of \<open>_get_engine_cache_stage\<close>.\<close>

definition serialize :: "json \<Rightarrow> stage_error + string" where
  "serialize d = (case dumps d of None \<Rightarrow> Inl NotSerializable | Some s \<Rightarrow> Inr s)"

text \<open>
  \<open>_get_engine_cache_stage\<close> up to the call of \<open>get_engine_building_cache_stage\<close>: the
  assertion, \<open>force_rebuild\<close>, and the three serialized configurations.
\<close>

definition engine_cache_stage_request ::
  "loader \<Rightarrow> cache_inputs \<Rightarrow> stage_error + stage_request" where
  "engine_cache_stage_request l c =
     (case hf_model_dir l of
        None \<Rightarrow> Inl HfModelDirRequired
      | Some d \<Rightarrow>
          (let force_rebuild = (auto_parallel l \<or> model_format l \<noteq> HF) in
           case serialize (ci_parallel_config c) of
             Inl e \<Rightarrow> Inl e
           | Inr parallel_str \<Rightarrow>
               (case serialize (ci_pretrained_config c) of
                  Inl e \<Rightarrow> Inl e
                | Inr pretrained_str \<Rightarrow>
                    (case serialize (ci_quant_config c) of
                       Inl e \<Rightarrow> Inl e
                     | Inr quant_str \<Rightarrow>
                         Inr \<lparr>sr_build_config = ci_build_config c, sr_model_path = d,
                              sr_force_rebuild = force_rebuild, sr_parallel_config = parallel_str,
                              sr_pretrained_config = pretrained_str, sr_quant_config = quant_str\<rparr>))))"

text \<open>
  Modelled from the spec: the fingerprint that \<open>get_engine_building_cache_stage\<close> of
  \<open>BuildCache\<close> derives from its arguments; \<open>build_cache.py\<close> is not among the sources.
  The spec: ``Deterministic fingerprint = stable serialization (sorted keys) of:
  resolved build configuration (minus plugin sub-config), resolved plugin
  configuration, parallel topology (tensor/pipeline/world size), quantization
  configuration, and the canonical pretrained-model configuration''. The fingerprint
  is the list of these five serializations, whatever hash is taken of it.
\<close>

definition fingerprint :: "stage_request \<Rightarrow> stage_error + string list" where
  "fingerprint rq =
     (case serialize (bc_options (sr_build_config rq)) of
        Inl e \<Rightarrow> Inl e
      | Inr options_str \<Rightarrow>
          (case serialize (bc_plugin_config (sr_build_config rq)) of
             Inl e \<Rightarrow> Inl e
           | Inr plugin_str \<Rightarrow>
               Inr [options_str, plugin_str, sr_parallel_config rq, sr_quant_config rq,
                    sr_pretrained_config rq]))"

text \<open>The key of the engine cache for a loader and its configurations.\<close>

definition engine_cache_key :: "loader \<Rightarrow> cache_inputs \<Rightarrow> stage_error + string list" where
  "engine_cache_key l c =
     (case engine_cache_stage_request l c of Inl e \<Rightarrow> Inl e | Inr rq \<Rightarrow> fingerprint rq)"

definition same_inputs :: "cache_inputs \<Rightarrow> cache_inputs \<Rightarrow> bool" where
  "same_inputs c c' \<longleftrightarrow>
     same_value (bc_options (ci_build_config c)) (bc_options (ci_build_config c'))
     \<and> same_value (bc_plugin_config (ci_build_config c)) (bc_plugin_config (ci_build_config c'))
     \<and> same_value (ci_parallel_config c) (ci_parallel_config c')
     \<and> same_value (ci_pretrained_config c) (ci_pretrained_config c')
     \<and> same_value (ci_quant_config c) (ci_quant_config c')"

definition unique_inputs :: "cache_inputs \<Rightarrow> bool" where
  "unique_inputs c \<longleftrightarrow>
     unique_keys (bc_options (ci_build_config c))
     \<and> unique_keys (bc_plugin_config (ci_build_config c))
     \<and> unique_keys (ci_parallel_config c)
     \<and> unique_keys (ci_pretrained_config c)
     \<and> unique_keys (ci_quant_config c)"

text \<open>
  The configurations of one build, written down twice with the keys in different
  orders, and a loader with the model directory set.
\<close>

definition llama_inputs :: cache_inputs where
  "llama_inputs =
     \<lparr>ci_build_config =
        \<lparr>bc_options = JDict [(''max_batch_size'', JInt 8), (''max_seq_len'', JInt 2048)],
         bc_plugin_config = JDict [(''context_fmha'', JBool True),
                                   (''gemm_plugin'', JStr ''auto'')]\<rparr>,
      ci_parallel_config =
        JDict [(''tp_size'', JInt 2), (''pp_size'', JInt 1), (''auto_parallel'', JBool False)],
      ci_pretrained_config =
        JDict [(''architecture'', JStr ''LlamaForCausalLM''), (''dtype'', JStr ''float16''),
               (''mapping'', JDict [(''world_size'', JInt 2), (''tp_size'', JInt 2)])],
      ci_quant_config = JDict [(''quant_algo'', JNull), (''exclude_modules'', JList [])]\<rparr>"

definition llama_inputs_reordered :: cache_inputs where
  "llama_inputs_reordered =
     \<lparr>ci_build_config =
        \<lparr>bc_options = JDict [(''max_seq_len'', JInt 2048), (''max_batch_size'', JInt 8)],
         bc_plugin_config = JDict [(''gemm_plugin'', JStr ''auto''),
                                   (''context_fmha'', JBool True)]\<rparr>,
      ci_parallel_config =
        JDict [(''auto_parallel'', JBool False), (''pp_size'', JInt 1), (''tp_size'', JInt 2)],
      ci_pretrained_config =
        JDict [(''mapping'', JDict [(''tp_size'', JInt 2), (''world_size'', JInt 2)]),
               (''dtype'', JStr ''float16''), (''architecture'', JStr ''LlamaForCausalLM'')],
      ci_quant_config = JDict [(''exclude_modules'', JList []), (''quant_algo'', JNull)]\<rparr>"

definition staged_hf :: loader where
  "staged_hf = local_hf\<lparr>hf_model_dir := Some ''/models/llama''\<rparr>"


section \<open>The store\<close>

lemma length_heap_set [simp]: "length (heap_set h r k v) = length h"
  by (simp add: heap_set_def)

lemma heap_get_set:
  "r < length h \<Longrightarrow>
   heap_get (heap_set h r k v) r' k' = (if r' = r \<and> k' = k then Some v else heap_get h r' k')"
  by (auto simp: heap_get_def heap_set_def update_conv' nth_list_update)

lemma heap_set_mono:
  assumes "r < length h" "heap_get h r k = None \<or> heap_get h r k = Some v"
    and "heap_get h q k' = Some v'"
  shows "heap_get (heap_set h r k v) q k' = Some v'"
  using assms by (auto simp: heap_get_set)

lemma dict_get_agrees:
  "dict_get (h ! r) k v = v \<longleftrightarrow> heap_get h r k = None \<or> heap_get h r k = Some v"
  by (auto simp: dict_get_def heap_get_def split: option.splits)

lemma keys_heap_set:
  "map (map fst) (heap_set h r k v) =
   (map (map fst) h)[r := (if k \<in> set (map fst (h ! r)) then map fst (h ! r) else map fst (h ! r) @ [k])]"
  by (simp add: heap_set_def map_update update_keys)

lemma keys_heap_set_sync:
  assumes "map (map fst) ch = map (map fst) sh"
  shows "map (map fst) (heap_set ch r k v) = map (map fst) (heap_set sh r k w)"
proof (cases "r < length ch")
  case True
  with assms have "r < length sh" by (metis length_map)
  with True assms have "map fst (ch ! r) = map fst (sh ! r)" by (metis nth_map)
  with assms show ?thesis by (simp add: keys_heap_set)
next
  case False
  with assms have "\<not> r < length sh" by (metis length_map)
  with False assms show ?thesis by (simp add: heap_set_def list_update_beyond not_less)
qed

lemma keys_sync_get:
  assumes "map (map fst) ch = map (map fst) sh" "r < length ch" "heap_get ch r k = Some v"
  shows "\<exists>w. heap_get sh r k = Some w"
proof -
  from assms(1,2) have "r < length sh" by (metis length_map)
  with assms(1,2) have "map fst (ch ! r) = map fst (sh ! r)" by (metis nth_map)
  moreover from assms(3) have "k \<in> set (map fst (ch ! r))"
    by (metis heap_get_def map_of_eq_None_iff option.distinct(1) set_map)
  ultimately have "k \<in> fst ` set (sh ! r)" by simp
  then show ?thesis by (metis heap_get_def map_of_eq_None_iff not_None_eq)
qed

lemma distinct_heap_set:
  assumes "list_all (\<lambda>d. distinct (map fst d)) h"
  shows "list_all (\<lambda>d. distinct (map fst d)) (heap_set h r k v)"
proof (cases "r < length h")
  case True
  with assms have "distinct (map fst (h ! r))" by (simp add: list_all_length)
  then have "distinct (map fst (AList.update k v (h ! r)))" by (rule distinct_update)
  with assms show ?thesis
    by (auto simp: heap_set_def list_all_iff dest!: set_update_subset_insert[THEN subsetD])
next
  case False
  with assms show ?thesis by (simp add: heap_set_def list_update_beyond not_less)
qed

section \<open>The paired assignment\<close>

lemma assign_fields [simp]:
  "virtual_configs (assign_option rc rs k v x s) = virtual_configs s"
  "option_sources (assign_option rc rs k v x s) = option_sources s"
  "func_claims (assign_option rc rs k v x s) = func_claims s"
  "perf_claims (assign_option rc rs k v x s) = perf_claims s"
  "events (assign_option rc rs k v x s) = events s"
  "length (cfg_heap (assign_option rc rs k v x s)) = length (cfg_heap s)"
  "length (src_heap (assign_option rc rs k v x s)) = length (src_heap s)"
  by (simp_all add: assign_option_def)

lemma assign_here:
  "r < length (cfg_heap s) \<Longrightarrow> heap_get (cfg_heap (assign_option r rs k v x s)) r k = Some v"
  by (simp add: assign_option_def heap_get_set)

lemma hinv_assign: "hinv s \<Longrightarrow> hinv (assign_option r r k v x s)"
  by (simp add: hinv_def assign_option_def keys_heap_set_sync distinct_heap_set)

lemma evolves_refl [simp]: "evolves s s"
  by (simp add: evolves_def)

lemma evolves_trans: "evolves s t \<Longrightarrow> evolves t u \<Longrightarrow> evolves s u"
  unfolding evolves_def by (metis le_trans less_le_trans)

lemma evolves_assign:
  assumes "r < length (cfg_heap s)"
    and "heap_get (cfg_heap s) r k = None \<or> heap_get (cfg_heap s) r k = Some v"
  shows "evolves s (assign_option r rs k v x s)"
  using assms by (simp add: evolves_def assign_option_def heap_set_mono)

lemma inner_step_refl [simp]: "inner_step s s"
  by (simp add: inner_step_def)

lemma inner_step_trans: "inner_step s t \<Longrightarrow> inner_step t u \<Longrightarrow> inner_step s u"
  unfolding inner_step_def by (metis evolves_trans)

lemma inner_step_assign:
  assumes "r < length (cfg_heap s)"
    and "heap_get (cfg_heap s) r k = None \<or> heap_get (cfg_heap s) r k = Some v"
  shows "inner_step s (assign_option r r k v x s)"
  using assms by (simp add: inner_step_def evolves_assign hinv_assign)

lemma inner_step_length: "inner_step s s' \<Longrightarrow> length (cfg_heap s') = length (cfg_heap s)"
  by (simp add: inner_step_def)

lemma inner_step_bound:
  "inner_step s s' \<Longrightarrow> r < length (cfg_heap s) \<Longrightarrow> heap_get (cfg_heap s) r k = Some v
   \<Longrightarrow> heap_get (cfg_heap s') r k = Some v"
  by (simp add: inner_step_def evolves_def)

section \<open>The loops over the options of one call or claim\<close>

lemma setup_options_Inl: "setup_options info kw rc rs s = Inl e \<Longrightarrow> e = AssertionError"
  by (induction kw arbitrary: s) (auto split: if_splits)

lemma setup_options_step:
  assumes "setup_options info kw r r s = Inr s'" "r < length (cfg_heap s)"
  shows "inner_step s s' \<and> events s' = events s
     \<and> (\<forall>k v. (k, v) \<in> set kw \<longrightarrow> heap_get (cfg_heap s') r k = Some v)"
  using assms
proof (induction kw arbitrary: s)
  case Nil
  then show ?case by simp
next
  case (Cons a kw)
  obtain k v where a: "a = (k, v)" by (cases a)
  let ?t = "assign_option r r k v info s"
  from Cons.prems a have ok: "heap_get (cfg_heap s) r k = None \<or> heap_get (cfg_heap s) r k = Some v"
    and rest: "setup_options info kw r r ?t = Inr s'"
    by (auto simp: dict_get_agrees split: if_splits)
  from Cons.prems have rt: "r < length (cfg_heap ?t)" by simp
  from Cons.IH[OF rest rt] have ih: "inner_step ?t s'" "events s' = events s"
    "\<And>k v. (k, v) \<in> set kw \<Longrightarrow> heap_get (cfg_heap s') r k = Some v"
    by simp_all
  have st: "inner_step s ?t" using Cons.prems(2) ok by (rule inner_step_assign)
  have "heap_get (cfg_heap s') r k = Some v"
    using ih(1) rt assign_here[OF Cons.prems(2)] by (rule inner_step_bound)
  with ih st a show ?case by (auto intro: inner_step_trans)
qed

lemma func_options_step:
  assumes "func_options func opts r r s = Inr s'" "r < length (cfg_heap s)"
  shows "inner_step s s' \<and> events s' = events s
     \<and> (\<forall>k v. (k, v) \<in> set opts \<longrightarrow> heap_get (cfg_heap s') r k = Some v)"
  using assms
proof (induction opts arbitrary: s)
  case Nil
  then show ?case by simp
next
  case (Cons a opts)
  obtain k v where a: "a = (k, v)" by (cases a)
  show ?case
  proof (cases "heap_get (cfg_heap s) r k")
    case None
    let ?t = "assign_option r r k v func s"
    from Cons.prems a None have rest: "func_options func opts r r ?t = Inr s'" by simp
    from Cons.prems have rt: "r < length (cfg_heap ?t)" by simp
    from Cons.IH[OF rest rt] have ih: "inner_step ?t s'" "events s' = events s"
      "\<And>k v. (k, v) \<in> set opts \<Longrightarrow> heap_get (cfg_heap s') r k = Some v"
      by simp_all
    have st: "inner_step s ?t" using Cons.prems(2) None by (simp add: inner_step_assign)
    have "heap_get (cfg_heap s') r k = Some v"
      using ih(1) rt assign_here[OF Cons.prems(2)] by (rule inner_step_bound)
    with ih st a show ?thesis by (auto intro: inner_step_trans)
  next
    case (Some cur)
    with Cons.prems a have eq: "cur = v" and rest: "func_options func opts r r s = Inr s'"
      by (auto split: if_splits option.splits)
    from Cons.IH[OF rest Cons.prems(2)] have ih: "inner_step s s'" "events s' = events s"
      "\<And>k v. (k, v) \<in> set opts \<Longrightarrow> heap_get (cfg_heap s') r k = Some v"
      by simp_all
    have "heap_get (cfg_heap s') r k = Some v"
      using ih(1) Cons.prems(2) Some eq by (simp add: inner_step_bound)
    with ih a show ?thesis by auto
  qed
qed

lemma func_funcs_step:
  assumes "func_funcs funcs r r s = Inr s'" "r < length (cfg_heap s)"
  shows "inner_step s s' \<and> events s' = events s
     \<and> (\<forall>f opts k v. (f, opts) \<in> set funcs \<longrightarrow> (k, v) \<in> set opts
          \<longrightarrow> heap_get (cfg_heap s') r k = Some v)"
  using assms
proof (induction funcs arbitrary: s)
  case Nil
  then show ?case by simp
next
  case (Cons a funcs)
  obtain f opts where a: "a = (f, opts)" by (cases a)
  from Cons.prems a obtain t where one: "func_options f opts r r s = Inr t"
    and rest: "func_funcs funcs r r t = Inr s'"
    by (auto split: sum.splits)
  from func_options_step[OF one Cons.prems(2)] have st: "inner_step s t" "events t = events s"
    "\<And>k v. (k, v) \<in> set opts \<Longrightarrow> heap_get (cfg_heap t) r k = Some v"
    by simp_all
  from st(1) Cons.prems(2) have rt: "r < length (cfg_heap t)" by (simp add: inner_step_length)
  from Cons.IH[OF rest rt] have ih: "inner_step t s'" "events s' = events t"
    "\<And>f opts k v. (f, opts) \<in> set funcs \<Longrightarrow> (k, v) \<in> set opts
        \<Longrightarrow> heap_get (cfg_heap s') r k = Some v"
    by blast+
  have "\<And>k v. (k, v) \<in> set opts \<Longrightarrow> heap_get (cfg_heap s') r k = Some v"
    using ih(1) rt st(3) by (blast intro: inner_step_bound)
  with ih st a show ?case by (auto intro: inner_step_trans)
qed

lemma perf_options_step:
  assumes "perf_options perf opts r r s = (b, s')" "r < length (cfg_heap s)"
  shows "inner_step s s'
     \<and> (\<not> b \<longrightarrow> events s' = events s
            \<and> (\<forall>k v. (k, v) \<in> set opts \<longrightarrow> heap_get (cfg_heap s') r k = Some v))
     \<and> (b \<longrightarrow> (\<exists>k. k \<in> fst ` set opts \<and> events s' = events s @ [Warning perf k]))"
  using assms
proof (induction opts arbitrary: s)
  case Nil
  then show ?case by simp
next
  case (Cons a opts)
  obtain k v where a: "a = (k, v)" by (cases a)
  show ?case
  proof (cases "case heap_get (cfg_heap s) r k of Some cur \<Rightarrow> cur \<noteq> v | None \<Rightarrow> False")
    case True
    with Cons.prems a have "b" "s' = s\<lparr>events := events s @ [Warning perf k]\<rparr>" by auto
    then show ?thesis using a
      by (auto simp: inner_step_def evolves_def hinv_def)
  next
    case False
    then have ok: "heap_get (cfg_heap s) r k = None \<or> heap_get (cfg_heap s) r k = Some v"
      by (auto split: option.splits)
    let ?t = "assign_option r r k v perf s"
    from Cons.prems a False have rest: "perf_options perf opts r r ?t = (b, s')" by simp
    from Cons.prems have rt: "r < length (cfg_heap ?t)" by simp
    from Cons.IH[OF rest rt] have ih: "inner_step ?t s'"
      "\<not> b \<Longrightarrow> events s' = events s"
      "\<And>k v. \<not> b \<Longrightarrow> (k, v) \<in> set opts \<Longrightarrow> heap_get (cfg_heap s') r k = Some v"
      "b \<Longrightarrow> \<exists>k. k \<in> fst ` set opts \<and> events s' = events s @ [Warning perf k]"
      by simp_all
    have st: "inner_step s ?t" using Cons.prems(2) ok by (rule inner_step_assign)
    have "heap_get (cfg_heap s') r k = Some v"
      using ih(1) rt assign_here[OF Cons.prems(2)] by (rule inner_step_bound)
    with ih st a show ?thesis by (auto intro: inner_step_trans)
  qed
qed


section \<open>Well-formed arbitrators and entering a config\<close>

lemma wf_hinv: "wf_arb s \<Longrightarrow> hinv s"
  by (simp add: wf_arb_def hinv_def)

lemma wf_init: "wf_arb init"
  by (simp add: wf_arb_def init_def)

lemma wf_claim_func: "wf_arb s \<Longrightarrow> wf_arb (claim_func func g opts s)"
  by (auto simp: wf_arb_def claim_func_def)

lemma wf_claim_perf: "wf_arb s \<Longrightarrow> wf_arb (claim_perf perf g fb opts s)"
  by (auto simp: wf_arb_def claim_perf_def)

lemma wf_lengths: "wf_arb s \<Longrightarrow> length (cfg_heap s) = length (src_heap s)"
  by (metis wf_arb_def length_map)

lemma wf_inner_step: "wf_arb s \<Longrightarrow> inner_step s s' \<Longrightarrow> wf_arb s'"
  by (auto simp: wf_arb_def inner_step_def hinv_def)

lemma map_of_range:
  "list_all (\<lambda>nr. snd nr < n) outer \<Longrightarrow> map_of outer name = Some r \<Longrightarrow> r < n"
  by (induction outer) (auto split: if_splits)

lemma map_of_inj:
  assumes "distinct (map snd outer)" "map_of outer a = Some r" "map_of outer b = Some r"
  shows "a = b"
proof -
  from assms(2,3) have "(a, r) \<in> set outer" "(b, r) \<in> set outer"
    by (auto dest: map_of_SomeD)
  with assms(1) show ?thesis
    by (metis distinct_map inj_on_def prod.inject snd_conv)
qed

lemma setdefault_new_props:
  assumes "setdefault_new outer h name = (r, outer', h')"
    and "list_all (\<lambda>nr. snd nr < length h) outer"
  shows "r < length h'" "map_of outer' name = Some r"
    "list_all (\<lambda>nr. snd nr < length h') outer'"
    "length h \<le> length h'"
    "\<And>i. i < length h \<Longrightarrow> h' ! i = h ! i"
    "\<And>n q. map_of outer n = Some q \<Longrightarrow> map_of outer' n = Some q"
    "map (map fst) h' = map (map fst) h @ (if map_of outer name = None then [[]] else [])"
    "distinct (map snd outer) \<Longrightarrow> distinct (map snd outer')"
    "list_all (\<lambda>d. distinct (map fst d)) h \<Longrightarrow> list_all (\<lambda>d. distinct (map fst d)) h'"
proof -
  show "r < length h'" using assms
    by (cases "map_of outer name") (auto simp: setdefault_new_def dest: map_of_range)
  show "map_of outer' name = Some r" using assms
    by (cases "map_of outer name") (auto simp: setdefault_new_def map_add_def)
  show "list_all (\<lambda>nr. snd nr < length h') outer'" using assms
    by (cases "map_of outer name") (fastforce simp: setdefault_new_def list_all_iff)+
  show "length h \<le> length h'" using assms
    by (cases "map_of outer name") (auto simp: setdefault_new_def)
  show "\<And>i. i < length h \<Longrightarrow> h' ! i = h ! i" using assms
    by (cases "map_of outer name") (auto simp: setdefault_new_def nth_append)
  show "\<And>n q. map_of outer n = Some q \<Longrightarrow> map_of outer' n = Some q" using assms
    by (cases "map_of outer name") (auto simp: setdefault_new_def map_add_def)
  show "map (map fst) h' = map (map fst) h @ (if map_of outer name = None then [[]] else [])"
    using assms by (cases "map_of outer name") (auto simp: setdefault_new_def)
  show "distinct (map snd outer) \<Longrightarrow> distinct (map snd outer')" using assms
    by (cases "map_of outer name") (fastforce simp: setdefault_new_def list_all_iff)+
  show "list_all (\<lambda>d. distinct (map fst d)) h \<Longrightarrow> list_all (\<lambda>d. distinct (map fst d)) h'"
    using assms by (cases "map_of outer name") (auto simp: setdefault_new_def)
qed

lemma setdefault_new_fst_eq:
  "length h = length h' \<Longrightarrow>
   fst (setdefault_new outer h name) = fst (setdefault_new outer h' name)
   \<and> fst (snd (setdefault_new outer h name)) = fst (snd (setdefault_new outer h' name))"
  by (simp add: setdefault_new_def split: option.splits)

lemma vc_lookup_mono:
  assumes "evolves s s'"
    and "list_all (\<lambda>nr. snd nr < length (cfg_heap s)) (virtual_configs s)"
    and "\<And>n q. map_of (virtual_configs s) n = Some q \<Longrightarrow> map_of (virtual_configs s') n = Some q"
    and "vc_lookup s g k = Some v"
  shows "vc_lookup s' g k = Some v"
proof -
  from assms(4) obtain q where q: "map_of (virtual_configs s) g = Some q"
    "heap_get (cfg_heap s) q k = Some v"
    by (auto simp: vc_lookup_def split: option.splits)
  from q(1) assms(2) have "q < length (cfg_heap s)" by (rule map_of_range[rotated])
  with assms(1) q(2) have "heap_get (cfg_heap s') q k = Some v" by (simp add: evolves_def)
  with assms(3)[OF q(1)] show ?thesis by (simp add: vc_lookup_def)
qed

lemma enter_props:
  assumes "wf_arb s" "enter g s = (r, t)"
  shows "wf_arb t" "r < length (cfg_heap t)" "map_of (virtual_configs t) g = Some r"
    "evolves s t" "events t = events s"
    "\<And>n q. map_of (virtual_configs s) n = Some q \<Longrightarrow> map_of (virtual_configs t) n = Some q"
    "\<And>k. vc_lookup t g k = vc_lookup s g k"
proof -
  obtain rc vcs ch where a: "setdefault_new (virtual_configs s) (cfg_heap s) g = (rc, vcs, ch)"
    by (cases "setdefault_new (virtual_configs s) (cfg_heap s) g")
  obtain rs oss sh where b: "setdefault_new (option_sources s) (src_heap s) g = (rs, oss, sh)"
    by (cases "setdefault_new (option_sources s) (src_heap s) g")
  from assms(1) have rng: "list_all (\<lambda>nr. snd nr < length (cfg_heap s)) (virtual_configs s)"
    and eq: "option_sources s = virtual_configs s"
    and keys: "map (map fst) (cfg_heap s) = map (map fst) (src_heap s)"
    and dk: "list_all (\<lambda>d. distinct (map fst d)) (cfg_heap s)"
    and dr: "distinct (map snd (virtual_configs s))"
    by (simp_all add: wf_arb_def)
  from assms(2) a b have t: "t = s\<lparr>virtual_configs := vcs, cfg_heap := ch, option_sources := oss, src_heap := sh\<rparr>"
    and r: "r = rc" by (simp_all add: enter_def)
  from setdefault_new_fst_eq[OF wf_lengths[OF assms(1)], of "option_sources s" g] a b eq
  have same: "rs = rc" "oss = vcs" by simp_all
  note pa = setdefault_new_props[OF a rng]
  have rng': "list_all (\<lambda>nr. snd nr < length (src_heap s)) (option_sources s)"
    using rng eq wf_lengths[OF assms(1)] by simp
  note pb = setdefault_new_props[OF b rng']
  show "wf_arb t" using pa(3) pa(7) pb(7) pa(8)[OF dr] pa(9)[OF dk] same keys eq
    by (simp add: wf_arb_def t)
  show "r < length (cfg_heap t)" using pa(1) by (simp add: t r)
  show "map_of (virtual_configs t) g = Some r" using pa(2) by (simp add: t r)
  show "evolves s t" using pa(4) pa(5) by (simp add: evolves_def t heap_get_def)
  show "events t = events s" by (simp add: t)
  show "\<And>n q. map_of (virtual_configs s) n = Some q \<Longrightarrow> map_of (virtual_configs t) n = Some q"
    using pa(6) by (simp add: t)
  show "\<And>k. vc_lookup t g k = vc_lookup s g k"
  proof -
    fix k
    show "vc_lookup t g k = vc_lookup s g k"
    proof (cases "map_of (virtual_configs s) g")
      case None
      with a have "rc = length (cfg_heap s)" "ch = cfg_heap s @ [[]]"
        by (simp_all add: setdefault_new_def)
      with None pa(2) show ?thesis by (simp add: vc_lookup_def t heap_get_def)
    next
      case (Some q)
      with a show ?thesis by (simp add: vc_lookup_def t setdefault_new_def)
    qed
  qed
qed

lemma enter_vc_lookup:
  assumes "wf_arb s" "enter g s = (r, t)" "vc_lookup s g' k = Some v"
  shows "vc_lookup t g' k = Some v"
proof -
  note ep = enter_props[OF assms(1,2)]
  from assms(1) have "list_all (\<lambda>nr. snd nr < length (cfg_heap s)) (virtual_configs s)"
    by (simp add: wf_arb_def)
  from vc_lookup_mono[OF ep(4) this ep(6) assms(3)] show ?thesis .
qed

lemma inner_step_vc_lookup:
  assumes "wf_arb s" "inner_step s s'" "vc_lookup s g k = Some v"
  shows "vc_lookup s' g k = Some v"
proof -
  from assms(1) have "list_all (\<lambda>nr. snd nr < length (cfg_heap s)) (virtual_configs s)"
    by (simp add: wf_arb_def)
  moreover from assms(2) have "evolves s s'" "virtual_configs s' = virtual_configs s"
    by (simp_all add: inner_step_def)
  ultimately show ?thesis using assms(3) by (auto intro: vc_lookup_mono)
qed

section \<open>\<open>setup\<close>\<close>

lemma setup_arb_enter:
  "wf_arb s \<Longrightarrow> setup_arb info g kw s = setup_options info kw (fst (enter g s)) (fst (enter g s)) (snd (enter g s))"
  using setdefault_new_fst_eq[OF wf_lengths, of s "option_sources s" g]
  by (auto simp: setup_arb_def enter_def wf_arb_def split: prod.splits)

lemma setup_options_agree:
  assumes "\<forall>k v. (k, v) \<in> set kw \<longrightarrow> heap_get (cfg_heap s) r k = Some v" "r < length (cfg_heap s)"
  shows "\<exists>s'. setup_options info kw r r s = Inr s'"
  using assms
proof (induction kw arbitrary: s)
  case Nil
  then show ?case by simp
next
  case (Cons a kw)
  obtain k v where a: "a = (k, v)" by (cases a)
  let ?t = "assign_option r r k v info s"
  from Cons.prems a have cur: "heap_get (cfg_heap s) r k = Some v" by simp
  then have "inner_step s ?t" using Cons.prems(2) by (simp add: inner_step_assign)
  then have "\<forall>k' v'. (k', v') \<in> set kw \<longrightarrow> heap_get (cfg_heap ?t) r k' = Some v'"
    using Cons.prems by (simp add: inner_step_bound)
  moreover have "r < length (cfg_heap ?t)" using Cons.prems by simp
  ultimately obtain s' where "setup_options info kw r r ?t = Inr s'"
    using Cons.IH by blast
  with cur a show ?case by (simp add: dict_get_agrees)
qed

lemma setup_options_conflict:
  assumes "r < length (cfg_heap s)" "heap_get (cfg_heap s) r k = Some v"
    and "(k, v') \<in> set kw" "v' \<noteq> v"
  shows "setup_options info kw r r s = Inl AssertionError"
proof (cases "setup_options info kw r r s")
  case (Inl e)
  then show ?thesis by (simp add: setup_options_Inl)
next
  case (Inr s')
  from setup_options_step[OF Inr assms(1)] assms(1,2,3)
  have "heap_get (cfg_heap s') r k = Some v" "heap_get (cfg_heap s') r k = Some v'"
    by (blast intro: inner_step_bound)+
  with assms(4) show ?thesis by simp
qed

lemma setup_arb_Inr:
  assumes "wf_arb s" "setup_arb info g kw s = Inr s'"
  shows "wf_arb s'"
    "\<And>k v. (k, v) \<in> set kw \<Longrightarrow> vc_lookup s' g k = Some v"
    "\<And>g' k v. vc_lookup s g' k = Some v \<Longrightarrow> vc_lookup s' g' k = Some v"
    "func_claims s' = func_claims s" "perf_claims s' = perf_claims s"
proof -
  obtain r t where e: "enter g s = (r, t)" by (cases "enter g s")
  note ep = enter_props[OF assms(1) e]
  from assms e have run: "setup_options info kw r r t = Inr s'"
    by (simp add: setup_arb_enter)
  from setup_options_step[OF run ep(2)] have st: "inner_step t s'"
    and bound: "\<And>k v. (k, v) \<in> set kw \<Longrightarrow> heap_get (cfg_heap s') r k = Some v"
    by simp_all
  show "wf_arb s'" using ep(1) st by (rule wf_inner_step)
  show "\<And>k v. (k, v) \<in> set kw \<Longrightarrow> vc_lookup s' g k = Some v"
    using bound ep(3) st by (simp add: vc_lookup_def inner_step_def)
  show "\<And>g' k v. vc_lookup s g' k = Some v \<Longrightarrow> vc_lookup s' g' k = Some v"
    using enter_vc_lookup[OF assms(1) e] inner_step_vc_lookup[OF ep(1) st] by blast
  show "func_claims s' = func_claims s" "perf_claims s' = perf_claims s"
    using st ep(4) by (simp_all add: inner_step_def evolves_def)
qed

lemma setup_arb_conflict:
  assumes "wf_arb s" "vc_lookup s g k = Some v" "(k, v') \<in> set kw" "v' \<noteq> v"
  shows "setup_arb info g kw s = Inl AssertionError"
proof -
  obtain r t where e: "enter g s = (r, t)" by (cases "enter g s")
  note ep = enter_props[OF assms(1) e]
  from assms(2) ep(7) have "vc_lookup t g k = Some v" by simp
  with ep(3) have "heap_get (cfg_heap t) r k = Some v" by (simp add: vc_lookup_def)
  from setup_options_conflict[OF ep(2) this assms(3,4)] e assms(1)
  show ?thesis by (simp add: setup_arb_enter)
qed

lemma setup_arb_agree:
  assumes "wf_arb s" "\<forall>k v. (k, v) \<in> set kw \<longrightarrow> vc_lookup s g k = Some v"
  shows "\<exists>s'. setup_arb info g kw s = Inr s'"
proof -
  obtain r t where e: "enter g s = (r, t)" by (cases "enter g s")
  note ep = enter_props[OF assms(1) e]
  have "\<forall>k v. (k, v) \<in> set kw \<longrightarrow> heap_get (cfg_heap t) r k = Some v"
  proof (intro allI impI)
    fix k v assume "(k, v) \<in> set kw"
    with assms(2) have "vc_lookup s g k = Some v" by blast
    with ep(7) have "vc_lookup t g k = Some v" by simp
    with ep(3) show "heap_get (cfg_heap t) r k = Some v" by (simp add: vc_lookup_def)
  qed
  from setup_options_agree[OF this ep(2)] e assms(1)
  show ?thesis by (simp add: setup_arb_enter)
qed

section \<open>Calling \<open>setup\<close> twice\<close>

text \<open>
  Claim C7, as amended. After a \<open>setup\<close> that set the option \<open>k\<close> of a config to
  \<open>v\<close>, every further \<open>setup\<close> for the same config whose keyword arguments give
  \<open>k\<close> another value fails, and the exception is the \<open>AssertionError\<close> of the
  \<open>assert\<close> statement; a further \<open>setup\<close> that repeats values of the first call
  returns without an exception and leaves \<open>k\<close> at \<open>v\<close>.
\<close>

theorem setup_twice:
  assumes "wf_arb s" and "setup_arb info g kw s = Inr s1" and "(k, v) \<in> set kw"
  shows "(\<forall>v' kw'. v' \<noteq> v \<longrightarrow> (k, v') \<in> set kw' \<longrightarrow>
            setup_arb info' g kw' s1 = Inl AssertionError
            \<and> raised_class (setup_arb info' g kw' s1) = Some ''AssertionError'')
       \<and> (\<forall>kw'. set kw' \<subseteq> set kw \<longrightarrow>
            (\<exists>s2. setup_arb info' g kw' s1 = Inr s2 \<and> vc_lookup s2 g k = Some v))"
proof (intro conjI allI impI)
  note first = setup_arb_Inr[OF assms(1,2)]
  from first(2)[OF assms(3)] have cur: "vc_lookup s1 g k = Some v" .
  {
    fix v' :: 'a and kw' assume "v' \<noteq> v" "(k, v') \<in> set kw'"
    from setup_arb_conflict[OF first(1) cur this(2,1)]
    show "setup_arb info' g kw' s1 = Inl AssertionError" .
    then show "raised_class (setup_arb info' g kw' s1) = Some ''AssertionError''"
      by (simp add: raised_class_def)
  }
  {
    fix kw' assume sub: "set kw' \<subseteq> set kw"
    have "\<forall>k v. (k, v) \<in> set kw' \<longrightarrow> vc_lookup s1 g k = Some v"
      using sub first(2) by blast
    from setup_arb_agree[OF first(1) this]
    obtain s2 where s2: "setup_arb info' g kw' s1 = Inr s2" by blast
    from setup_arb_Inr(3)[OF first(1) s2 cur] s2
    show "\<exists>s2. setup_arb info' g kw' s1 = Inr s2 \<and> vc_lookup s2 g k = Some v" by blast
  }
qed

text \<open>The two further calls on the arbitrator of a pre-Ampere GPU.\<close>

lemma baseline_once_eq:
  "setup_arb ''pre-ampere not supported'' ''kv_cache_config'' [(''enable_block_reuse'', False)] init
     = Inr baseline_once"
  by (simp add: setup_arb_def init_def setdefault_new_def assign_option_def heap_set_def dict_get_def
      baseline_once_def)

theorem setup_twice_witness:
  "setup_arb ''again'' ''kv_cache_config'' [(''enable_block_reuse'', True)] baseline_once
      = Inl AssertionError
   \<and> (\<exists>s2. setup_arb ''again'' ''kv_cache_config'' [(''enable_block_reuse'', False)] baseline_once = Inr s2
          \<and> vc_lookup s2 ''kv_cache_config'' ''enable_block_reuse'' = Some False)"
proof -
  have m: "(''enable_block_reuse'', False) \<in> set [(''enable_block_reuse'', False)]" by simp
  note t = setup_twice[OF wf_init baseline_once_eq m, of "''again''"]
  have a: "setup_arb ''again'' ''kv_cache_config'' [(''enable_block_reuse'', True)] baseline_once
      = Inl AssertionError"
    using t[THEN conjunct1, rule_format, of True "[(''enable_block_reuse'', True)]"] by simp
  have b: "\<exists>s2. setup_arb ''again'' ''kv_cache_config'' [(''enable_block_reuse'', False)] baseline_once = Inr s2
          \<and> vc_lookup s2 ''kv_cache_config'' ''enable_block_reuse'' = Some False"
    using t[THEN conjunct2, rule_format, of "[(''enable_block_reuse'', False)]"] by simp
  from a b show ?thesis by blast
qed

text \<open>
  Claim C7 as stated names the exception \<open>InconsistentBaselineError\<close>. The second of
  two \<open>setup\<close> calls with differing values raises \<open>AssertionError\<close>, no exception
  of that name.
\<close>

theorem setup_twice_not_named_as_claimed:
  "raised_class
     (and_then
        (setup_arb ''pre-ampere not supported'' ''kv_cache_config'' [(''enable_block_reuse'', False)]
           (init :: (bool, nat) arbitrator))
        (setup_arb ''again'' ''kv_cache_config'' [(''enable_block_reuse'', True)]))
     = Some ''AssertionError''
   \<and> raised_class
     (and_then
        (setup_arb ''pre-ampere not supported'' ''kv_cache_config'' [(''enable_block_reuse'', False)]
           (init :: (bool, nat) arbitrator))
        (setup_arb ''again'' ''kv_cache_config'' [(''enable_block_reuse'', True)]))
     \<noteq> Some ''InconsistentBaselineError''"
  by (simp add: and_then_def raised_class_def setup_arb_def init_def setdefault_new_def
      assign_option_def heap_set_def dict_get_def)



section \<open>The functionality phase\<close>

lemma enter_vc_lookup_eq:
  assumes "wf_arb s" "enter g s = (r, t)"
  shows "vc_lookup t g' k = vc_lookup s g' k"
proof (cases "map_of (virtual_configs s) g")
  case None
  from assms(1) have rng: "list_all (\<lambda>nr. snd nr < length (cfg_heap s)) (virtual_configs s)"
    by (simp add: wf_arb_def)
  from None assms(2) have t: "virtual_configs t = virtual_configs s @ [(g, length (cfg_heap s))]"
    "cfg_heap t = cfg_heap s @ [[]]"
    by (auto simp: enter_def setdefault_new_def split: prod.splits)
  show ?thesis
  proof (cases "map_of (virtual_configs s) g'")
    case N: None
    with None t show ?thesis
      by (auto simp: vc_lookup_def map_add_def heap_get_def split: option.splits)
  next
    case (Some q)
    with rng have "q < length (cfg_heap s)" by (auto dest: map_of_range)
    with Some t show ?thesis
      by (simp add: vc_lookup_def map_add_def heap_get_def nth_append)
  qed
next
  case (Some q)
  with assms(2) have "virtual_configs t = virtual_configs s" "cfg_heap t = cfg_heap s"
    by (auto simp: enter_def setdefault_new_def split: prod.splits)
  then show ?thesis by (auto simp: vc_lookup_def split: option.splits)
qed

lemma func_phase_Cons:
  "wf_arb s \<Longrightarrow>
   func_phase ((g, funcs) # rest) s =
     (case func_funcs funcs (fst (enter g s)) (fst (enter g s)) (snd (enter g s)) of
        Inl e \<Rightarrow> Inl e
      | Inr s' \<Rightarrow> func_phase rest s')"
  using setdefault_new_fst_eq[OF wf_lengths, of s "option_sources s" g]
  by (auto simp: enter_def wf_arb_def split: prod.splits)

lemma func_phase_step:
  assumes "wf_arb s" "func_phase fcs s = Inr s'"
  shows "wf_arb s' \<and> events s' = events s
     \<and> func_claims s' = func_claims s \<and> perf_claims s' = perf_claims s
     \<and> (\<forall>g k v. vc_lookup s g k = Some v \<longrightarrow> vc_lookup s' g k = Some v)
     \<and> (\<forall>g funcs f opts k v. (g, funcs) \<in> set fcs \<longrightarrow> (f, opts) \<in> set funcs
          \<longrightarrow> (k, v) \<in> set opts \<longrightarrow> vc_lookup s' g k = Some v)"
  using assms
proof (induction fcs arbitrary: s)
  case Nil
  then show ?case by simp
next
  case (Cons a fcs)
  obtain g funcs where a: "a = (g, funcs)" by (cases a)
  obtain r t where e: "enter g s = (r, t)" by (cases "enter g s")
  note ep = enter_props[OF Cons.prems(1) e]
  have unf: "func_phase (a # fcs) s =
      (case func_funcs funcs r r t of Inl e \<Rightarrow> Inl e | Inr s' \<Rightarrow> func_phase fcs s')"
    unfolding a by (simp only: func_phase_Cons[OF Cons.prems(1)] e fst_conv snd_conv)
  from Cons.prems(2) obtain u where one: "func_funcs funcs r r t = Inr u"
    and rest: "func_phase fcs u = Inr s'"
    unfolding unf by (auto split: sum.splits)
  from func_funcs_step[OF one ep(2)] have st: "inner_step t u" "events u = events t"
    and bound: "\<And>f opts k v. (f, opts) \<in> set funcs \<Longrightarrow> (k, v) \<in> set opts
        \<Longrightarrow> heap_get (cfg_heap u) r k = Some v"
    by blast+
  have wu: "wf_arb u" using ep(1) st(1) by (rule wf_inner_step)
  from Cons.IH[OF wu rest] have ih: "wf_arb s'" "events s' = events u"
    "func_claims s' = func_claims u" "perf_claims s' = perf_claims u"
    "\<And>g k v. vc_lookup u g k = Some v \<Longrightarrow> vc_lookup s' g k = Some v"
    "\<And>g funcs f opts k v. (g, funcs) \<in> set fcs \<Longrightarrow> (f, opts) \<in> set funcs
        \<Longrightarrow> (k, v) \<in> set opts \<Longrightarrow> vc_lookup s' g k = Some v"
    by blast+
  have su: "\<And>g k v. vc_lookup s g k = Some v \<Longrightarrow> vc_lookup u g k = Some v"
    using enter_vc_lookup[OF Cons.prems(1) e] inner_step_vc_lookup[OF ep(1) st(1)] by blast
  have here: "\<And>f opts k v. (f, opts) \<in> set funcs \<Longrightarrow> (k, v) \<in> set opts
        \<Longrightarrow> vc_lookup u g k = Some v"
    using bound ep(3) st(1) by (simp add: vc_lookup_def inner_step_def)
  have claims: "func_claims u = func_claims s" "perf_claims u = perf_claims s"
    using st(1) ep(4) by (simp_all add: inner_step_def evolves_def)
  show ?case
  proof (intro conjI allI impI)
    show "wf_arb s'" by (rule ih(1))
    show "events s' = events s" using ih(2) st(2) ep(5) by simp
    show "func_claims s' = func_claims s" using ih(3) claims by simp
    show "perf_claims s' = perf_claims s" using ih(4) claims by simp
  next
    fix g' k v assume "vc_lookup s g' k = Some v"
    then show "vc_lookup s' g' k = Some v" using su ih(5) by blast
  next
    fix g' funcs' f opts k v
    assume m: "(g', funcs') \<in> set (a # fcs)" "(f, opts) \<in> set funcs'" "(k, v) \<in> set opts"
    show "vc_lookup s' g' k = Some v"
    proof (cases "(g', funcs') = (g, funcs)")
      case True
      with m here have "vc_lookup u g k = Some v" by blast
      with True ih(5) show ?thesis by blast
    next
      case False
      with m(1) a have "(g', funcs') \<in> set fcs" by auto
      with m(2,3) ih(6) show ?thesis by blast
    qed
  qed
qed



text \<open>Unfolding the arbitrator on a concrete input.\<close>

lemmas arb_eval = arbitrate_def claim_perf_def claim_func_def init_def setdefault_new_def
  assign_option_def heap_set_def heap_get_def vc_lookup_def source_lookup_def


section \<open>Where the bindings after the functionality phase come from\<close>

lemma assign_get:
  "r < length (cfg_heap s) \<Longrightarrow>
   heap_get (cfg_heap (assign_option r rs k v x s)) q k' =
     (if q = r \<and> k' = k then Some v else heap_get (cfg_heap s) q k')"
  by (simp add: assign_option_def heap_get_set)

lemma func_options_bounded:
  assumes "func_options func opts r r s = Inr s'" "r < length (cfg_heap s)"
    and "heap_get (cfg_heap s') q k = Some v0"
  shows "heap_get (cfg_heap s) q k = Some v0 \<or> (q = r \<and> (k, v0) \<in> set opts)"
  using assms
proof (induction opts arbitrary: s)
  case Nil
  then show ?case by simp
next
  case (Cons a opts)
  obtain k1 v1 where a: "a = (k1, v1)" by (cases a)
  show ?case
  proof (cases "heap_get (cfg_heap s) r k1")
    case None
    let ?t = "assign_option r r k1 v1 func s"
    from Cons.prems a None have rest: "func_options func opts r r ?t = Inr s'" by simp
    from Cons.prems have rt: "r < length (cfg_heap ?t)" by simp
    from Cons.IH[OF rest rt Cons.prems(3)]
    have "heap_get (cfg_heap ?t) q k = Some v0 \<or> (q = r \<and> (k, v0) \<in> set opts)" .
    then show ?thesis using a Cons.prems(2) by (auto simp: assign_get split: if_splits)
  next
    case (Some cur)
    with Cons.prems a have rest: "func_options func opts r r s = Inr s'"
      by (auto split: if_splits option.splits)
    from Cons.IH[OF rest Cons.prems(2,3)] show ?thesis by auto
  qed
qed

lemma func_funcs_bounded:
  assumes "func_funcs funcs r r s = Inr s'" "r < length (cfg_heap s)"
    and "heap_get (cfg_heap s') q k = Some v0"
  shows "heap_get (cfg_heap s) q k = Some v0
     \<or> (q = r \<and> (\<exists>f opts. (f, opts) \<in> set funcs \<and> (k, v0) \<in> set opts))"
  using assms
proof (induction funcs arbitrary: s)
  case Nil
  then show ?case by simp
next
  case (Cons a funcs)
  obtain f opts where a: "a = (f, opts)" by (cases a)
  from Cons.prems a obtain t where one: "func_options f opts r r s = Inr t"
    and rest: "func_funcs funcs r r t = Inr s'"
    by (auto split: sum.splits)
  from func_options_step[OF one Cons.prems(2)] have "inner_step s t" by simp
  with Cons.prems(2) have rt: "r < length (cfg_heap t)" by (simp add: inner_step_length)
  from Cons.IH[OF rest rt Cons.prems(3)]
  have "heap_get (cfg_heap t) q k = Some v0
     \<or> (q = r \<and> (\<exists>f opts. (f, opts) \<in> set funcs \<and> (k, v0) \<in> set opts))" .
  then show ?case
  proof
    assume "heap_get (cfg_heap t) q k = Some v0"
    from func_options_bounded[OF one Cons.prems(2) this] a show ?thesis by auto
  next
    assume "q = r \<and> (\<exists>f opts. (f, opts) \<in> set funcs \<and> (k, v0) \<in> set opts)"
    then show ?thesis by auto
  qed
qed

lemma func_phase_bounded:
  assumes "wf_arb s" "func_phase fcs s = Inr s'" "vc_lookup s' g k = Some v0"
  shows "vc_lookup s g k = Some v0
     \<or> (\<exists>funcs f opts. (g, funcs) \<in> set fcs \<and> (f, opts) \<in> set funcs \<and> (k, v0) \<in> set opts)"
  using assms
proof (induction fcs arbitrary: s)
  case Nil
  then show ?case by simp
next
  case (Cons a fcs)
  obtain g1 funcs where a: "a = (g1, funcs)" by (cases a)
  obtain r t where e: "enter g1 s = (r, t)" by (cases "enter g1 s")
  note ep = enter_props[OF Cons.prems(1) e]
  have unf: "func_phase (a # fcs) s =
      (case func_funcs funcs r r t of Inl e \<Rightarrow> Inl e | Inr s' \<Rightarrow> func_phase fcs s')"
    unfolding a by (simp only: func_phase_Cons[OF Cons.prems(1)] e fst_conv snd_conv)
  from Cons.prems(2) obtain u where one: "func_funcs funcs r r t = Inr u"
    and rest: "func_phase fcs u = Inr s'"
    unfolding unf by (auto split: sum.splits)
  from func_funcs_step[OF one ep(2)] have st: "inner_step t u" by simp
  have wu: "wf_arb u" using ep(1) st by (rule wf_inner_step)
  from Cons.IH[OF wu rest Cons.prems(3)]
  have "vc_lookup u g k = Some v0
     \<or> (\<exists>funcs f opts. (g, funcs) \<in> set fcs \<and> (f, opts) \<in> set funcs \<and> (k, v0) \<in> set opts)" .
  then show ?case
  proof
    assume "vc_lookup u g k = Some v0"
    then obtain q where q: "map_of (virtual_configs u) g = Some q"
      "heap_get (cfg_heap u) q k = Some v0"
      by (auto simp: vc_lookup_def split: option.splits)
    from st have vu: "virtual_configs u = virtual_configs t" by (simp add: inner_step_def)
    from func_funcs_bounded[OF one ep(2) q(2)]
    show ?thesis
    proof
      assume old: "heap_get (cfg_heap t) q k = Some v0"
      with q(1) vu have "vc_lookup t g k = Some v0" by (simp add: vc_lookup_def)
      then have "vc_lookup s g k = Some v0"
        by (simp add: enter_vc_lookup_eq[OF Cons.prems(1) e])
      then show ?thesis by simp
    next
      assume new: "q = r \<and> (\<exists>f opts. (f, opts) \<in> set funcs \<and> (k, v0) \<in> set opts)"
      from ep(1) have "distinct (map snd (virtual_configs t))" by (simp add: wf_arb_def)
      from map_of_inj[OF this] q(1) vu ep(3) new have "g = g1" by simp
      with new a show ?thesis by auto
    qed
  next
    assume "\<exists>funcs f opts. (g, funcs) \<in> set fcs \<and> (f, opts) \<in> set funcs \<and> (k, v0) \<in> set opts"
    then show ?thesis by auto
  qed
qed

section \<open>What a conflict error reports\<close>

lemma func_options_collision:
  assumes "func_options func opts r r s = Inl e" "r < length (cfg_heap s)" "hinv s"
  shows "\<exists>option val existing cur. e = ConfigArbitrateError option val func existing cur
           \<and> (option, val) \<in> set opts \<and> cur \<noteq> val
           \<and> (heap_get (cfg_heap s) r option = Some cur \<or> (option, cur) \<in> set opts)"
  using assms
proof (induction opts arbitrary: s)
  case Nil
  then show ?case by simp
next
  case (Cons a opts)
  obtain k v where a: "a = (k, v)" by (cases a)
  show ?case
  proof (cases "heap_get (cfg_heap s) r k")
    case None
    let ?t = "assign_option r r k v func s"
    from Cons.prems a None have rest: "func_options func opts r r ?t = Inl e" by simp
    from Cons.prems have "r < length (cfg_heap ?t)" "hinv ?t" by (simp_all add: hinv_assign)
    from Cons.IH[OF rest this] obtain option val existing cur
      where ih: "e = ConfigArbitrateError option val func existing cur"
        "(option, val) \<in> set opts" "cur \<noteq> val"
        "heap_get (cfg_heap ?t) r option = Some cur \<or> (option, cur) \<in> set opts"
      by blast
    from ih(4) Cons.prems(2) a
    have "heap_get (cfg_heap s) r option = Some cur \<or> (option, cur) \<in> set (a # opts)"
      by (auto simp: assign_get split: if_splits)
    with ih(1-3) show ?thesis by auto
  next
    case (Some cur)
    show ?thesis
    proof (cases "cur = v")
      case True
      with Cons.prems a Some have "func_options func opts r r s = Inl e" by simp
      from Cons.IH[OF this Cons.prems(2,3)] show ?thesis by auto
    next
      case False
      from Cons.prems(3) have "map (map fst) (cfg_heap s) = map (map fst) (src_heap s)"
        by (simp add: hinv_def)
      from keys_sync_get[OF this Cons.prems(2) Some]
      obtain w where "heap_get (src_heap s) r k = Some w" by blast
      with Cons.prems a Some False show ?thesis by auto
    qed
  qed
qed

lemma func_funcs_collision:
  assumes "func_funcs funcs r r s = Inl e" "r < length (cfg_heap s)" "hinv s"
  shows "\<exists>f opts option val existing cur. e = ConfigArbitrateError option val f existing cur
           \<and> (f, opts) \<in> set funcs \<and> (option, val) \<in> set opts \<and> cur \<noteq> val
           \<and> (heap_get (cfg_heap s) r option = Some cur
               \<or> (\<exists>f' opts'. (f', opts') \<in> set funcs \<and> (option, cur) \<in> set opts'))"
  using assms
proof (induction funcs arbitrary: s)
  case Nil
  then show ?case by simp
next
  case (Cons a funcs)
  obtain f opts where a: "a = (f, opts)" by (cases a)
  show ?case
  proof (cases "func_options f opts r r s")
    case (Inl e')
    with Cons.prems a have "e' = e" by simp
    with func_options_collision[OF Inl Cons.prems(2,3)] a show ?thesis by fastforce
  next
    case (Inr t)
    with Cons.prems a have rest: "func_funcs funcs r r t = Inl e" by simp
    from func_options_step[OF Inr Cons.prems(2)] have "inner_step s t" by simp
    with Cons.prems have "r < length (cfg_heap t)" "hinv t" by (simp_all add: inner_step_def)
    from Cons.IH[OF rest this] obtain f2 opts2 option val existing cur
      where ih: "e = ConfigArbitrateError option val f2 existing cur"
        "(f2, opts2) \<in> set funcs" "(option, val) \<in> set opts2" "cur \<noteq> val"
        "heap_get (cfg_heap t) r option = Some cur
          \<or> (\<exists>f' opts'. (f', opts') \<in> set funcs \<and> (option, cur) \<in> set opts')"
      by blast
    have "heap_get (cfg_heap s) r option = Some cur
          \<or> (\<exists>f' opts'. (f', opts') \<in> set (a # funcs) \<and> (option, cur) \<in> set opts')"
      using ih(5)
    proof
      assume "heap_get (cfg_heap t) r option = Some cur"
      from func_options_bounded[OF Inr Cons.prems(2) this] a show ?thesis by auto
    next
      assume "\<exists>f' opts'. (f', opts') \<in> set funcs \<and> (option, cur) \<in> set opts'"
      then show ?thesis by auto
    qed
    with ih(1-4) show ?thesis by fastforce
  qed
qed

lemma func_phase_collision:
  assumes "wf_arb s" "func_phase fcs s = Inl e"
  shows "\<exists>g funcs f opts option val existing cur.
           e = ConfigArbitrateError option val f existing cur \<and> cur \<noteq> val
           \<and> (g, funcs) \<in> set fcs \<and> (f, opts) \<in> set funcs \<and> (option, val) \<in> set opts
           \<and> (vc_lookup s g option = Some cur
               \<or> (\<exists>funcs' f' opts'. (g, funcs') \<in> set fcs \<and> (f', opts') \<in> set funcs'
                     \<and> (option, cur) \<in> set opts'))"
  using assms
proof (induction fcs arbitrary: s)
  case Nil
  then show ?case by simp
next
  case (Cons a fcs)
  obtain g1 funcs1 where a: "a = (g1, funcs1)" by (cases a)
  obtain r t where en: "enter g1 s = (r, t)" by (cases "enter g1 s")
  note ep = enter_props[OF Cons.prems(1) en]
  have unf: "func_phase (a # fcs) s =
      (case func_funcs funcs1 r r t of Inl e \<Rightarrow> Inl e | Inr s' \<Rightarrow> func_phase fcs s')"
    unfolding a by (simp only: func_phase_Cons[OF Cons.prems(1)] en fst_conv snd_conv)
  show ?case
  proof (cases "func_funcs funcs1 r r t")
    case (Inl e')
    with Cons.prems(2) have "e' = e" unfolding unf by simp
    with func_funcs_collision[OF Inl ep(2) wf_hinv[OF ep(1)]]
    obtain f opts option val existing cur
      where c: "e = ConfigArbitrateError option val f existing cur"
        "(f, opts) \<in> set funcs1" "(option, val) \<in> set opts" "cur \<noteq> val"
        "heap_get (cfg_heap t) r option = Some cur
          \<or> (\<exists>f' opts'. (f', opts') \<in> set funcs1 \<and> (option, cur) \<in> set opts')"
      by blast
    have "vc_lookup s g1 option = Some cur
       \<or> (\<exists>funcs' f' opts'. (g1, funcs') \<in> set (a # fcs) \<and> (f', opts') \<in> set funcs'
             \<and> (option, cur) \<in> set opts')"
      using c(5)
    proof
      assume "heap_get (cfg_heap t) r option = Some cur"
      with ep(3) have "vc_lookup t g1 option = Some cur" by (simp add: vc_lookup_def)
      then show ?thesis by (simp add: enter_vc_lookup_eq[OF Cons.prems(1) en])
    next
      assume "\<exists>f' opts'. (f', opts') \<in> set funcs1 \<and> (option, cur) \<in> set opts'"
      with a show ?thesis by auto
    qed
    with c(1-4) a show ?thesis by fastforce
  next
    case (Inr u)
    with Cons.prems(2) have rest: "func_phase fcs u = Inl e" unfolding unf by simp
    from func_funcs_step[OF Inr ep(2)] have st: "inner_step t u" by simp
    with ep(1) have wu: "wf_arb u" by (rule wf_inner_step)
    from Cons.IH[OF wu rest] obtain g funcs f opts option val existing cur
      where ih: "e = ConfigArbitrateError option val f existing cur" "cur \<noteq> val"
        "(g, funcs) \<in> set fcs" "(f, opts) \<in> set funcs" "(option, val) \<in> set opts"
        "vc_lookup u g option = Some cur
          \<or> (\<exists>funcs' f' opts'. (g, funcs') \<in> set fcs \<and> (f', opts') \<in> set funcs'
                \<and> (option, cur) \<in> set opts')"
      by blast
    have one: "func_phase [a] s = Inr u"
      using Inr unfolding a by (simp only: func_phase_Cons[OF Cons.prems(1)] en fst_conv snd_conv)
        simp
    have "vc_lookup s g option = Some cur
       \<or> (\<exists>funcs' f' opts'. (g, funcs') \<in> set (a # fcs) \<and> (f', opts') \<in> set funcs'
             \<and> (option, cur) \<in> set opts')"
      using ih(6)
    proof
      assume "vc_lookup u g option = Some cur"
      from func_phase_bounded[OF Cons.prems(1) one this] show ?thesis by auto
    next
      assume "\<exists>funcs' f' opts'. (g, funcs') \<in> set fcs \<and> (f', opts') \<in> set funcs'
                \<and> (option, cur) \<in> set opts'"
      then show ?thesis by auto
    qed
    with ih(1-5) show ?thesis by fastforce
  qed
qed


section \<open>Two functionality claims on one option\<close>









section \<open>A performance claim that is dropped\<close>

text \<open>
  Claim C2 at the performance claim \<open>chunked_context\<close> with the options
  \<open>context_fmha=True, use_paged_context_fmha=True\<close> on a config where \<open>streamingllm\<close>
  has set \<open>use_paged_context_fmha=False\<close>. The functionality phase leaves
  \<open>context_fmha\<close> unset. The claim is dropped at its second option, with one warning
  and one call of its fallback, and the outer dictionaries are not replaced; but the
  first option was assigned through the shared inner dictionary, so after the claim
  \<open>context_fmha\<close> is \<open>True\<close> with the dropped claim as its source, the arbitrator
  differs from the one before the claim, and \<open>__call__\<close> writes \<open>context_fmha=True\<close>
  onto the live plugin config.
\<close>

theorem perf_claim_partly_applied:
  "func_phase (func_claims dropped_claim) dropped_claim = Inr before_perf
   \<and> vc_lookup before_perf ''plugin_config'' ''context_fmha'' = None
   \<and> vc_lookup (perf_phase (perf_claims before_perf) before_perf) ''plugin_config'' ''context_fmha''
       = Some True
   \<and> source_lookup (perf_phase (perf_claims before_perf) before_perf) ''plugin_config'' ''context_fmha''
       = Some ''chunked_context''
   \<and> events (perf_phase (perf_claims before_perf) before_perf)
       = [Warning ''chunked_context'' ''use_paged_context_fmha'', Fallback 0]
   \<and> virtual_configs (perf_phase (perf_claims before_perf) before_perf) = virtual_configs before_perf
   \<and> perf_phase (perf_claims before_perf) before_perf \<noteq> before_perf
   \<and> map_sum id snd (arbitrator_call dropped_claim [(''plugin_config'', [(''context_fmha'', False)])])
       = Inr [(''plugin_config'', [(''context_fmha'', True), (''use_paged_context_fmha'', False)])]"
  by (simp add: dropped_claim_def before_perf_def arb_eval arbitrator_call_def apply_virtual_def)


section \<open>The performance phase\<close>

lemma wf_arb_events [simp]: "wf_arb (s\<lparr>events := ev\<rparr>) = wf_arb s"
  by (simp add: wf_arb_def)

lemma evolves_events [simp]: "evolves s (t\<lparr>events := ev\<rparr>) = evolves s t"
  by (simp add: evolves_def)

lemma perf_entries_step:
  assumes "wf_arb (s\<lparr>virtual_configs := vcs, option_sources := oss\<rparr>)"
    and "perf_entries perf entries vcs oss s = (b, vcs', oss', s')"
  shows "wf_arb (s'\<lparr>virtual_configs := vcs', option_sources := oss'\<rparr>) \<and> evolves s s'
     \<and> virtual_configs s' = virtual_configs s \<and> option_sources s' = option_sources s
     \<and> (\<forall>n q. map_of vcs n = Some q \<longrightarrow> map_of vcs' n = Some q)"
  using assms
proof (induction entries arbitrary: vcs oss s)
  case Nil
  then show ?case by simp
next
  case (Cons a entries)
  obtain g opts fb where a: "a = (g, opts, fb)" by (cases a)
  let ?L = "s\<lparr>virtual_configs := vcs, option_sources := oss\<rparr>"
  obtain rc vcs1 ch where sa: "setdefault_new vcs (cfg_heap s) g = (rc, vcs1, ch)"
    by (cases "setdefault_new vcs (cfg_heap s) g")
  obtain rs oss1 sh where sb: "setdefault_new oss (src_heap s) g = (rs, oss1, sh)"
    by (cases "setdefault_new oss (src_heap s) g")
  let ?t = "?L\<lparr>virtual_configs := vcs1, cfg_heap := ch, option_sources := oss1, src_heap := sh\<rparr>"
  have en: "enter g ?L = (rc, ?t)" using sa sb by (simp add: enter_def)
  note ep = enter_props[OF Cons.prems(1) en]
  from Cons.prems(1) have eq: "oss = vcs" by (simp add: wf_arb_def)
  from setdefault_new_fst_eq[OF wf_lengths[OF Cons.prems(1)], of oss g] sa sb eq
  have same: "rs = rc" by simp
  let ?s1 = "s\<lparr>cfg_heap := ch, src_heap := sh\<rparr>"
  obtain b1 s2 where po: "perf_options perf opts rc rc ?s1 = (b1, s2)"
    by (cases "perf_options perf opts rc rc ?s1")
  from ep(2) have r1: "rc < length (cfg_heap ?s1)" by simp
  from perf_options_step[OF po r1] have st: "inner_step ?s1 s2" by simp
  have e1: "evolves s ?s1" using ep(4) by (simp add: evolves_def)
  have e2: "evolves s s2" using e1 st by (auto simp: inner_step_def intro: evolves_trans)
  have outer: "virtual_configs s2 = virtual_configs s" "option_sources s2 = option_sources s"
    using st by (simp_all add: inner_step_def)
  have hi: "hinv ?s1" using ep(1) by (simp add: wf_arb_def hinv_def)
  with st have h2: "hinv s2" "length (cfg_heap s2) = length ch"
    by (simp_all add: inner_step_def)
  have w2: "wf_arb (s2\<lparr>virtual_configs := vcs1, option_sources := oss1\<rparr>)"
    using ep(1) h2 by (simp add: wf_arb_def hinv_def)
  have ext: "\<And>n q. map_of vcs n = Some q \<Longrightarrow> map_of vcs1 n = Some q"
    using ep(6) by simp
  show ?case
  proof (cases b1)
    case True
    with Cons.prems(2) a sa sb same po
    have res: "b = True" "vcs' = vcs1" "oss' = oss1"
      "s' = (case fb of Some f \<Rightarrow> s2\<lparr>events := events s2 @ [Fallback f]\<rparr> | None \<Rightarrow> s2)"
      by simp_all
    show ?thesis using res w2 e2 outer ext
      by (cases fb) (simp_all add: wf_arb_def evolves_def)
  next
    case False
    with Cons.prems(2) a sa sb same po
    have rest: "perf_entries perf entries vcs1 oss1 s2 = (b, vcs', oss', s')" by simp
    from Cons.IH[OF w2 rest]
    have ih: "wf_arb (s'\<lparr>virtual_configs := vcs', option_sources := oss'\<rparr>)" "evolves s2 s'"
      "virtual_configs s' = virtual_configs s2" "option_sources s' = option_sources s2"
      "\<And>n q. map_of vcs1 n = Some q \<Longrightarrow> map_of vcs' n = Some q"
      by blast+
    show ?thesis using ih e2 outer ext by (auto intro: evolves_trans)
  qed
qed

lemma perf_phase_step:
  assumes "wf_arb s"
  shows "wf_arb (perf_phase pcs s) \<and> evolves s (perf_phase pcs s)
     \<and> (\<forall>n q. map_of (virtual_configs s) n = Some q
           \<longrightarrow> map_of (virtual_configs (perf_phase pcs s)) n = Some q)"
  using assms
proof (induction pcs arbitrary: s)
  case Nil
  then show ?case by simp
next
  case (Cons a pcs)
  obtain perf entries where a: "a = (perf, entries)" by (cases a)
  obtain b vcs' oss' s' where pe:
    "perf_entries perf entries (virtual_configs s) (option_sources s) s = (b, vcs', oss', s')"
    by (cases "perf_entries perf entries (virtual_configs s) (option_sources s) s") auto
  have "wf_arb (s\<lparr>virtual_configs := virtual_configs s, option_sources := option_sources s\<rparr>)"
    using Cons.prems by simp
  from perf_entries_step[OF this pe]
  have st: "wf_arb (s'\<lparr>virtual_configs := vcs', option_sources := oss'\<rparr>)" "evolves s s'"
    "virtual_configs s' = virtual_configs s" "option_sources s' = option_sources s"
    "\<And>n q. map_of (virtual_configs s) n = Some q \<Longrightarrow> map_of vcs' n = Some q"
    by blast+
  let ?u = "if \<not> b then s'\<lparr>option_sources := oss', virtual_configs := vcs'\<rparr> else s'"
  have run: "perf_phase (a # pcs) s = perf_phase pcs ?u" using a pe by simp
  have wu: "wf_arb ?u"
  proof (cases b)
    case True
    from st(1) have "hinv s'" by (simp add: wf_arb_def hinv_def)
    moreover from st(2) have "length (cfg_heap s) \<le> length (cfg_heap s')"
      by (simp add: evolves_def)
    ultimately show ?thesis using True Cons.prems st(3,4)
      by (auto simp: wf_arb_def hinv_def list_all_iff)
  next
    case False
    with st(1) show ?thesis by (simp add: wf_arb_def)
  qed
  have eu: "evolves s ?u" using st(2) by (simp add: evolves_def)
  have xu: "\<And>n q. map_of (virtual_configs s) n = Some q \<Longrightarrow> map_of (virtual_configs ?u) n = Some q"
    using st(3,5) by simp
  from Cons.IH[OF wu] have ih: "wf_arb (perf_phase pcs ?u)" "evolves ?u (perf_phase pcs ?u)"
    "\<And>n q. map_of (virtual_configs ?u) n = Some q
        \<Longrightarrow> map_of (virtual_configs (perf_phase pcs ?u)) n = Some q"
    by blast+
  show ?case unfolding run
  proof (intro conjI allI impI)
    show "wf_arb (perf_phase pcs ?u)" by (rule ih(1))
    show "evolves s (perf_phase pcs ?u)" using eu ih(2) by (rule evolves_trans)
    fix n q assume "map_of (virtual_configs s) n = Some q"
    then show "map_of (virtual_configs (perf_phase pcs ?u)) n = Some q"
      using xu ih(3) by blast
  qed
qed

lemma perf_phase_vc_lookup:
  assumes "wf_arb s" "vc_lookup s g k = Some v"
  shows "vc_lookup (perf_phase pcs s) g k = Some v"
proof -
  from perf_phase_step[OF assms(1), of pcs]
  have "evolves s (perf_phase pcs s)"
    "\<And>n q. map_of (virtual_configs s) n = Some q
        \<Longrightarrow> map_of (virtual_configs (perf_phase pcs s)) n = Some q"
    by blast+
  moreover from assms(1) have "list_all (\<lambda>nr. snd nr < length (cfg_heap s)) (virtual_configs s)"
    by (simp add: wf_arb_def)
  ultimately show ?thesis using assms(2) by (blast intro: vc_lookup_mono)
qed

section \<open>The whole arbitration\<close>

lemma arbitrate_Inr:
  assumes "wf_arb s" "arbitrate s = Inr s'"
  shows "wf_arb s'"
    "\<And>g k v. vc_lookup s g k = Some v \<Longrightarrow> vc_lookup s' g k = Some v"
    "\<And>g funcs f opts k v. (g, funcs) \<in> set (func_claims s) \<Longrightarrow> (f, opts) \<in> set funcs
        \<Longrightarrow> (k, v) \<in> set opts \<Longrightarrow> vc_lookup s' g k = Some v"
proof -
  from assms(2) obtain t where t: "func_phase (func_claims s) s = Inr t"
    and s': "s' = perf_phase (perf_claims t) t"
    by (auto simp: arbitrate_def split: sum.splits)
  from func_phase_step[OF assms(1) t] have ft: "wf_arb t"
    "\<And>g k v. vc_lookup s g k = Some v \<Longrightarrow> vc_lookup t g k = Some v"
    "\<And>g funcs f opts k v. (g, funcs) \<in> set (func_claims s) \<Longrightarrow> (f, opts) \<in> set funcs
        \<Longrightarrow> (k, v) \<in> set opts \<Longrightarrow> vc_lookup t g k = Some v"
    by blast+
  show "wf_arb s'" using perf_phase_step[OF ft(1)] s' by blast
  show "\<And>g k v. vc_lookup s g k = Some v \<Longrightarrow> vc_lookup s' g k = Some v"
    using ft(2) perf_phase_vc_lookup[OF ft(1)] s' by blast
  show "\<And>g funcs f opts k v. (g, funcs) \<in> set (func_claims s) \<Longrightarrow> (f, opts) \<in> set funcs
        \<Longrightarrow> (k, v) \<in> set opts \<Longrightarrow> vc_lookup s' g k = Some v"
    using ft(3) perf_phase_vc_lookup[OF ft(1)] s' by blast
qed

lemma arbitrate_consistent:
  assumes "wf_arb s"
    and "\<And>g funcs f opts k v cur. (g, funcs) \<in> set (func_claims s) \<Longrightarrow> (f, opts) \<in> set funcs
        \<Longrightarrow> (k, v) \<in> set opts \<Longrightarrow> vc_lookup s g k = Some cur \<Longrightarrow> cur = v"
    and "\<And>g funcs f opts k v funcs' f' opts' v'.
        (g, funcs) \<in> set (func_claims s) \<Longrightarrow> (f, opts) \<in> set funcs \<Longrightarrow> (k, v) \<in> set opts
        \<Longrightarrow> (g, funcs') \<in> set (func_claims s) \<Longrightarrow> (f', opts') \<in> set funcs'
        \<Longrightarrow> (k, v') \<in> set opts' \<Longrightarrow> v' = v"
  shows "\<exists>s'. arbitrate s = Inr s'"
proof (cases "func_phase (func_claims s) s")
  case (Inl e)
  from func_phase_collision[OF assms(1) Inl] obtain g funcs f opts option val existing cur
    where c: "cur \<noteq> val" "(g, funcs) \<in> set (func_claims s)" "(f, opts) \<in> set funcs"
      "(option, val) \<in> set opts"
      "vc_lookup s g option = Some cur
        \<or> (\<exists>funcs' f' opts'. (g, funcs') \<in> set (func_claims s) \<and> (f', opts') \<in> set funcs'
              \<and> (option, cur) \<in> set opts')"
    by blast
  from c(5) have "cur = val"
  proof
    assume "vc_lookup s g option = Some cur"
    from assms(2)[OF c(2,3,4) this] show ?thesis .
  next
    assume "\<exists>funcs' f' opts'. (g, funcs') \<in> set (func_claims s) \<and> (f', opts') \<in> set funcs'
              \<and> (option, cur) \<in> set opts'"
    then obtain funcs' f' opts' where "(g, funcs') \<in> set (func_claims s)"
      "(f', opts') \<in> set funcs'" "(option, cur) \<in> set opts'" by blast
    from assms(3)[OF c(2,3,4) this] show ?thesis .
  qed
  with c(1) show ?thesis by simp
next
  case (Inr t)
  then show ?thesis by (simp add: arbitrate_def)
qed


section \<open>Registered claims\<close>

lemma register_Nil [simp]: "register [] s = s"
  by (simp add: register_def)

lemma register_Cons [simp]:
  "register (c # claims) s = register claims (claim_func (fst c) (fst (snd c)) (snd (snd c)) s)"
  by (simp add: register_def)

lemma claim_func_fields [simp]:
  "virtual_configs (claim_func f g opts s) = virtual_configs s"
  "option_sources (claim_func f g opts s) = option_sources s"
  "cfg_heap (claim_func f g opts s) = cfg_heap s"
  "src_heap (claim_func f g opts s) = src_heap s"
  "perf_claims (claim_func f g opts s) = perf_claims s"
  "events (claim_func f g opts s) = events s"
  by (simp_all add: claim_func_def)

lemma register_fields [simp]:
  "virtual_configs (register claims s) = virtual_configs s"
  "cfg_heap (register claims s) = cfg_heap s"
  "perf_claims (register claims s) = perf_claims s"
  by (induction claims arbitrary: s) simp_all

lemma wf_register: "wf_arb s \<Longrightarrow> wf_arb (register claims s)"
  by (induction claims arbitrary: s) (simp_all add: wf_claim_func)

lemma vc_lookup_register [simp]: "vc_lookup (register claims s) g k = vc_lookup s g k"
  by (auto simp: vc_lookup_def split: option.splits)

lemma claim_func_distinct:
  "distinct (map fst (func_claims s)) \<Longrightarrow> distinct (map fst (func_claims (claim_func f g opts s)))"
  by (auto simp: claim_func_def distinct_update split: option.splits
      dest: map_of_eq_None_iff[THEN iffD1])

lemma claim_func_member:
  assumes "distinct (map fst (func_claims s))"
  shows "(g', funcs) \<in> set (func_claims (claim_func f g opts s)) \<longleftrightarrow>
     (if g' = g
      then funcs = (case map_of (func_claims s) g of None \<Rightarrow> [] | Some c \<Rightarrow> c) @ [(f, opts)]
      else (g', funcs) \<in> set (func_claims s))"
proof -
  have d: "distinct (map fst (func_claims (claim_func f g opts s)))"
    using assms by (rule claim_func_distinct)
  have "map_of (func_claims (claim_func f g opts s)) g' = Some funcs \<longleftrightarrow>
     (if g' = g
      then funcs = (case map_of (func_claims s) g of None \<Rightarrow> [] | Some c \<Rightarrow> c) @ [(f, opts)]
      else map_of (func_claims s) g' = Some funcs)"
    by (auto simp: claim_func_def update_conv' map_add_def split: option.splits)
  then show ?thesis using assms d by simp
qed

lemma register_claimed:
  assumes "distinct (map fst (func_claims s))"
  shows "(\<exists>funcs. (g, funcs) \<in> set (func_claims (register claims s)) \<and> (f, opts) \<in> set funcs)
     \<longleftrightarrow> (f, g, opts) \<in> set claims
          \<or> (\<exists>funcs. (g, funcs) \<in> set (func_claims s) \<and> (f, opts) \<in> set funcs)"
  using assms
proof (induction claims arbitrary: s)
  case Nil
  then show ?case by simp
next
  case (Cons c claims)
  obtain f1 g1 o1 where c: "c = (f1, g1, o1)" by (cases c)
  let ?t = "claim_func f1 g1 o1 s"
  have d: "distinct (map fst (func_claims ?t))" using Cons.prems by (rule claim_func_distinct)
  have one: "(\<exists>funcs. (g, funcs) \<in> set (func_claims ?t) \<and> (f, opts) \<in> set funcs)
     \<longleftrightarrow> (f, g, opts) = (f1, g1, o1)
          \<or> (\<exists>funcs. (g, funcs) \<in> set (func_claims s) \<and> (f, opts) \<in> set funcs)"
  proof (cases "g = g1")
    case False
    then show ?thesis using Cons.prems by (simp add: claim_func_member)
  next
    case True
    show ?thesis
    proof (cases "map_of (func_claims s) g1")
      case None
      then have "g1 \<notin> fst ` set (func_claims s)" by (simp add: map_of_eq_None_iff)
      then have "\<And>funcs. (g1, funcs) \<notin> set (func_claims s)" by force
      with True None Cons.prems show ?thesis by (auto simp: claim_func_member)
    next
      case (Some c0)
      with Cons.prems have "\<And>funcs. (g1, funcs) \<in> set (func_claims s) \<longleftrightarrow> funcs = c0"
        by (metis map_of_eq_Some_iff option.inject)
      with True Some Cons.prems show ?thesis by (auto simp: claim_func_member)
    qed
  qed
  from Cons.IH[OF d] one c show ?case by auto
qed

lemma distinct_targets_agree:
  assumes "distinct (claim_targets claims)"
    and "(f, g, opts) \<in> set claims" "(k, v) \<in> set opts"
    and "(f', g, opts') \<in> set claims" "(k, v') \<in> set opts'"
  shows "v' = v"
proof -
  let ?all = "concat (map (\<lambda>c. map (\<lambda>kv. (fst (snd c), kv)) (snd (snd c))) claims)"
  have ct: "claim_targets claims = map (\<lambda>x. (fst x, fst (snd x))) ?all"
    by (simp add: claim_targets_def map_concat comp_def)
  have m1: "(g, k, v) \<in> set ?all" and m2: "(g, k, v') \<in> set ?all"
    using assms(2-5) by force+
  from assms(1) have inj: "inj_on (\<lambda>x. (fst x, fst (snd x))) (set ?all)"
    unfolding ct by (rule distinct_map[THEN iffD1, THEN conjunct2])
  have "(\<lambda>x. (fst x, fst (snd x))) (g, k, v) = (\<lambda>x. (fst x, fst (snd x))) (g, k, v')" by simp
  from inj_onD[OF inj this m1 m2] show ?thesis by simp
qed

section \<open>Writing the virtual configs onto the live configs\<close>

lemma map_of_setattrs:
  "distinct (map fst d) \<Longrightarrow>
   map_of (setattrs d config) k = (case map_of d k of Some v \<Rightarrow> Some v | None \<Rightarrow> map_of config k)"
proof (induction d arbitrary: config)
  case Nil
  then show ?case by simp
next
  case (Cons a d)
  obtain k1 v1 where a: "a = (k1, v1)" by (cases a)
  from Cons.prems a have "map_of d k1 = None" "distinct (map fst d)"
    by (auto simp: map_of_eq_None_iff)
  with Cons.IH[of "AList.update k1 v1 config"] a show ?case
    by (auto simp: update_conv' split: option.splits)
qed

lemma apply_virtual_attr:
  assumes "wf_arb s"
  shows "fst (apply_virtual s nc) = fst nc
     \<and> map_of (snd (apply_virtual s nc)) k =
         (case vc_lookup s (fst nc) k of Some v \<Rightarrow> Some v | None \<Rightarrow> map_of (snd nc) k)"
proof (cases "map_of (virtual_configs s) (fst nc)")
  case None
  then show ?thesis by (simp add: apply_virtual_def vc_lookup_def)
next
  case (Some r)
  with assms have "r < length (cfg_heap s)" by (auto simp: wf_arb_def dest: map_of_range)
  with assms have "distinct (map fst (cfg_heap s ! r))" by (simp add: wf_arb_def list_all_length)
  with Some show ?thesis
    by (simp add: apply_virtual_def vc_lookup_def heap_get_def map_of_setattrs)
qed

section \<open>The functionality phase and the recorded sources\<close>

lemma first_claim_pending:
  "first_claim ((f, opts) # rest) = pending f opts (first_claim rest)"
  by (rule ext) (simp add: pending_def)

lemma pending_Cons:
  "k' \<noteq> k \<Longrightarrow> pending f ((k, v) # opts) todo k' = pending f opts todo k'"
  "pending f ((k, v) # opts) todo k = Some (f, v)"
  "pending f [] todo = todo"
  by (simp_all add: pending_def fun_eq_iff)

text \<open>Nothing but the dictionaries at \<open>r\<close> changes.\<close>

lemma assign_frame:
  "q \<noteq> r \<Longrightarrow> cfg_heap (assign_option r r k v x s) ! q = cfg_heap s ! q
     \<and> src_heap (assign_option r r k v x s) ! q = src_heap s ! q"
  by (simp add: assign_option_def heap_set_def)

lemma func_options_frame:
  assumes "func_options f opts r r s = Inr s'" "q \<noteq> r"
  shows "cfg_heap s' ! q = cfg_heap s ! q \<and> src_heap s' ! q = src_heap s ! q
     \<and> length (src_heap s') = length (src_heap s)"
  using assms
proof (induction opts arbitrary: s)
  case Nil
  then show ?case by simp
next
  case (Cons a opts)
  obtain k v where a: "a = (k, v)" by (cases a)
  show ?case
  proof (cases "heap_get (cfg_heap s) r k")
    case None
    with Cons.prems a have "func_options f opts r r (assign_option r r k v f s) = Inr s'" by simp
    from Cons.IH[OF this Cons.prems(2)] assign_frame[OF Cons.prems(2)] show ?thesis by simp
  next
    case (Some cur)
    with Cons.prems a have "func_options f opts r r s = Inr s'"
      by (auto split: if_splits option.splits)
    from Cons.IH[OF this Cons.prems(2)] show ?thesis .
  qed
qed

lemma func_funcs_frame:
  assumes "func_funcs funcs r r s = Inr s'" "q \<noteq> r"
  shows "cfg_heap s' ! q = cfg_heap s ! q \<and> src_heap s' ! q = src_heap s ! q
     \<and> length (src_heap s') = length (src_heap s)"
  using assms
proof (induction funcs arbitrary: s)
  case Nil
  then show ?case by simp
next
  case (Cons a funcs)
  obtain f opts where a: "a = (f, opts)" by (cases a)
  from Cons.prems a obtain t where one: "func_options f opts r r s = Inr t"
    and rest: "func_funcs funcs r r t = Inr s'"
    by (auto split: sum.splits)
  from func_options_frame[OF one Cons.prems(2)] Cons.IH[OF rest Cons.prems(2)]
  show ?case by simp
qed

text \<open>The options of one claim.\<close>

lemma func_options_exact:
  assumes "r < length (cfg_heap t)" "r < length (src_heap t)"
    and "tracks t r rec (pending f opts todo)"
  shows "(option_conflicts rec f opts = [] \<longrightarrow>
            (\<exists>t'. func_options f opts r r t = Inr t' \<and> tracks t' r rec todo))
       \<and> (option_conflicts rec f opts \<noteq> [] \<longrightarrow>
            func_options f opts r r t = Inl (hd (option_conflicts rec f opts)))"
  using assms
proof (induction opts arbitrary: t)
  case Nil
  then show ?case by (simp add: pending_Cons)
next
  case (Cons a opts)
  obtain k v where a: "a = (k, v)" by (cases a)
  note tr = Cons.prems(3)[unfolded tracks_def a, rule_format]
  show ?case
  proof (cases "heap_get (cfg_heap t) r k")
    case None
    let ?t = "assign_option r r k v f t"
    from tr[of k] None have rk: "rec k = Some (f, v)" by (simp add: pending_Cons)
    have b: "r < length (cfg_heap ?t)" "r < length (src_heap ?t)"
      using Cons.prems(1,2) by simp_all
    have "tracks ?t r rec (pending f opts todo)"
      unfolding tracks_def
    proof
      fix k'
      show "case heap_get (cfg_heap ?t) r k' of
              Some cur \<Rightarrow> (\<exists>src. heap_get (src_heap ?t) r k' = Some src \<and> rec k' = Some (src, cur))
            | None \<Rightarrow> rec k' = pending f opts todo k'"
      proof (cases "k' = k")
        case True
        with rk Cons.prems(1,2) show ?thesis
          by (simp add: assign_option_def heap_get_set)
      next
        case False
        with tr[of k'] Cons.prems(1,2) show ?thesis
          by (simp add: assign_option_def heap_get_set pending_Cons split: option.splits)
      qed
    qed
    from Cons.IH[OF b this] None rk a show ?thesis by simp
  next
    case (Some cur)
    with tr[of k] obtain src where src: "heap_get (src_heap t) r k = Some src"
      "rec k = Some (src, cur)" by auto
    show ?thesis
    proof (cases "cur = v")
      case True
      have "tracks t r rec (pending f opts todo)"
        unfolding tracks_def
      proof
        fix k'
        show "case heap_get (cfg_heap t) r k' of
                Some cur \<Rightarrow> (\<exists>src. heap_get (src_heap t) r k' = Some src \<and> rec k' = Some (src, cur))
              | None \<Rightarrow> rec k' = pending f opts todo k'"
          using tr[of k'] Some by (cases "k' = k") (auto simp: pending_Cons split: option.splits)
      qed
      from Cons.IH[OF Cons.prems(1,2) this] Some src True a show ?thesis by simp
    next
      case False
      with Some src a show ?thesis by simp
    qed
  qed
qed

text \<open>The claims of one config.\<close>

lemma func_funcs_exact:
  assumes "r < length (cfg_heap t)" "r < length (src_heap t)"
    and "tracks t r rec (first_claim funcs)"
  shows "(claim_conflicts rec funcs = [] \<longrightarrow> (\<exists>t'. func_funcs funcs r r t = Inr t'))
       \<and> (claim_conflicts rec funcs \<noteq> [] \<longrightarrow>
            func_funcs funcs r r t = Inl (hd (claim_conflicts rec funcs)))"
  using assms
proof (induction funcs arbitrary: t)
  case Nil
  then show ?case by simp
next
  case (Cons a funcs)
  obtain f opts where a: "a = (f, opts)" by (cases a)
  from Cons.prems(3) have "tracks t r rec (pending f opts (first_claim funcs))"
    unfolding a first_claim_pending .
  note one = func_options_exact[OF Cons.prems(1,2) this]
  show ?case
  proof (cases "option_conflicts rec f opts = []")
    case True
    with one obtain t' where t': "func_options f opts r r t = Inr t'"
      "tracks t' r rec (first_claim funcs)" by blast
    from func_options_step[OF t'(1) Cons.prems(1)] have "inner_step t t'" by simp
    then have l1: "r < length (cfg_heap t')" using Cons.prems(1) by (simp add: inner_step_length)
    have l2: "r < length (src_heap t')"
    proof -
      have "length (src_heap t') = length (src_heap t)" using t'(1)
      proof (induction opts arbitrary: t)
        case Nil then show ?case by simp
      next
        case (Cons b opts)
        then show ?case
          by (cases b) (auto split: option.splits if_splits simp: assign_option_def)
      qed
      with Cons.prems(2) show ?thesis by simp
    qed
    from Cons.IH[OF l1 l2 t'(2)] True t'(1) a show ?thesis by simp
  next
    case False
    with one a show ?thesis by simp
  qed
qed


section \<open>The functionality phase over the configs\<close>

lemma source_lookup_wf:
  "wf_arb s \<Longrightarrow> source_lookup s g k =
     (case map_of (virtual_configs s) g of None \<Rightarrow> None | Some r \<Rightarrow> heap_get (src_heap s) r k)"
  by (simp add: source_lookup_def wf_arb_def)

lemma wf_bound_source:
  assumes "wf_arb s" "vc_lookup s g k = Some cur"
  shows "\<exists>src. source_lookup s g k = Some src"
proof -
  from assms(2) obtain q where q: "map_of (virtual_configs s) g = Some q"
    "heap_get (cfg_heap s) q k = Some cur"
    by (auto simp: vc_lookup_def split: option.splits)
  from assms(1) have rng: "list_all (\<lambda>nr. snd nr < length (cfg_heap s)) (virtual_configs s)"
    and keys: "map (map fst) (cfg_heap s) = map (map fst) (src_heap s)"
    by (simp_all add: wf_arb_def)
  from q(1) rng have "q < length (cfg_heap s)" by (rule map_of_range[rotated])
  from keys_sync_get[OF keys this q(2)] q(1) show ?thesis
    by (simp add: source_lookup_wf[OF assms(1)])
qed

lemma enter_source_lookup_eq:
  assumes "wf_arb s" "enter g s = (r, t)"
  shows "source_lookup t g' k = source_lookup s g' k"
proof -
  note ep = enter_props[OF assms]
  have "source_lookup t g' k =
      (case map_of (virtual_configs t) g' of None \<Rightarrow> None | Some q \<Rightarrow> heap_get (src_heap t) q k)"
    by (rule source_lookup_wf[OF ep(1)])
  also have "\<dots> =
      (case map_of (virtual_configs s) g' of None \<Rightarrow> None | Some q \<Rightarrow> heap_get (src_heap s) q k)"
  proof (cases "map_of (virtual_configs s) g")
    case None
    from assms(1) have rng: "list_all (\<lambda>nr. snd nr < length (cfg_heap s)) (virtual_configs s)"
      and eq: "option_sources s = virtual_configs s"
      by (simp_all add: wf_arb_def)
    from None eq assms(2) have t: "virtual_configs t = virtual_configs s @ [(g, length (cfg_heap s))]"
      "src_heap t = src_heap s @ [[]]"
      by (auto simp: enter_def setdefault_new_def split: prod.splits)
    show ?thesis
    proof (cases "map_of (virtual_configs s) g'")
      case N: None
      with None t wf_lengths[OF assms(1)] show ?thesis
        by (auto simp: map_add_def heap_get_def split: option.splits)
    next
      case (Some q)
      with rng have "q < length (cfg_heap s)" by (auto dest: map_of_range)
      with Some t wf_lengths[OF assms(1)] show ?thesis
        by (simp add: map_add_def heap_get_def nth_append)
    qed
  next
    case (Some q)
    from assms(1) have eq: "option_sources s = virtual_configs s" by (simp add: wf_arb_def)
    with Some assms(2) have "virtual_configs t = virtual_configs s" "src_heap t = src_heap s"
      by (auto simp: enter_def setdefault_new_def split: prod.splits)
    then show ?thesis by (auto split: option.splits)
  qed
  also have "\<dots> = source_lookup s g' k" by (rule source_lookup_wf[OF assms(1), symmetric])
  finally show ?thesis .
qed

text \<open>Resolving the claims of one config leaves the other configs as they are.\<close>

lemma config_step_other:
  assumes "wf_arb t" "enter g t = (r, t1)" "func_funcs funcs r r t1 = Inr u" "g' \<noteq> g"
  shows "vc_lookup u g' k = vc_lookup t g' k" "source_lookup u g' k = source_lookup t g' k"
proof -
  note ep = enter_props[OF assms(1,2)]
  from func_funcs_step[OF assms(3) ep(2)] have st: "inner_step t1 u" by simp
  have wu: "wf_arb u" using ep(1) st by (rule wf_inner_step)
  from st have vu: "virtual_configs u = virtual_configs t1" by (simp add: inner_step_def)
  from ep(1) have dr: "distinct (map snd (virtual_configs t1))" by (simp add: wf_arb_def)
  have same: "heap_get (cfg_heap u) q k = heap_get (cfg_heap t1) q k
      \<and> heap_get (src_heap u) q k = heap_get (src_heap t1) q k"
    if "map_of (virtual_configs t1) g' = Some q" for q
  proof -
    from map_of_inj[OF dr that] ep(3) assms(4) have "q \<noteq> r" by auto
    from func_funcs_frame[OF assms(3) this] show ?thesis by (simp add: heap_get_def)
  qed
  have "vc_lookup u g' k = vc_lookup t1 g' k"
    using same vu by (auto simp: vc_lookup_def split: option.splits)
  then show "vc_lookup u g' k = vc_lookup t g' k"
    using enter_vc_lookup_eq[OF assms(1,2)] by simp
  have "source_lookup u g' k = source_lookup t1 g' k"
    using same vu by (auto simp: source_lookup_wf[OF wu] source_lookup_wf[OF ep(1)] split: option.splits)
  then show "source_lookup u g' k = source_lookup t g' k"
    using enter_source_lookup_eq[OF assms(1,2)] by simp
qed

lemma phase_conflicts_cong:
  "(\<And>g funcs. (g, funcs) \<in> set fcs \<Longrightarrow> recs g = recs' g)
   \<Longrightarrow> phase_conflicts recs fcs = phase_conflicts recs' fcs"
proof (induction fcs)
  case Nil
  then show ?case by simp
next
  case (Cons a fcs)
  obtain g funcs where a: "a = (g, funcs)" by (cases a)
  from Cons.prems[of g funcs] a have "recs g = recs' g" by simp
  moreover have "phase_conflicts recs fcs = phase_conflicts recs' fcs"
  proof (rule Cons.IH)
    fix g' funcs' assume "(g', funcs') \<in> set fcs"
    then show "recs g' = recs' g'" using Cons.prems[of g' funcs'] by simp
  qed
  ultimately show ?case using a by simp
qed

lemma func_phase_exact:
  assumes "wf_arb t" "distinct (map fst fcs)"
    and "\<And>g funcs. (g, funcs) \<in> set fcs \<Longrightarrow> claims_of t g = funcs"
  shows "(phase_conflicts (recorded t) fcs = [] \<longrightarrow> (\<exists>t'. func_phase fcs t = Inr t'))
       \<and> (phase_conflicts (recorded t) fcs \<noteq> [] \<longrightarrow>
            func_phase fcs t = Inl (hd (phase_conflicts (recorded t) fcs)))"
  using assms
proof (induction fcs arbitrary: t)
  case Nil
  then show ?case by simp
next
  case (Cons a fcs)
  obtain g funcs where a: "a = (g, funcs)" by (cases a)
  obtain r t1 where e: "enter g t = (r, t1)" by (cases "enter g t")
  note ep = enter_props[OF Cons.prems(1) e]
  have unf: "func_phase (a # fcs) t =
      (case func_funcs funcs r r t1 of Inl e \<Rightarrow> Inl e | Inr s' \<Rightarrow> func_phase fcs s')"
    unfolding a by (simp only: func_phase_Cons[OF Cons.prems(1)] e fst_conv snd_conv)
  have co: "claims_of t g = funcs" using Cons.prems(3)[of g funcs] a by simp
  have tr: "tracks t1 r (recorded t g) (first_claim funcs)"
    unfolding tracks_def
  proof
    fix k
    have c: "heap_get (cfg_heap t1) r k = vc_lookup t g k"
      using ep(3) ep(7)[of k] by (simp add: vc_lookup_def)
    have s: "heap_get (src_heap t1) r k = source_lookup t g k"
      using ep(3) enter_source_lookup_eq[OF Cons.prems(1) e, of g k]
      by (simp add: source_lookup_wf[OF ep(1)])
    show "case heap_get (cfg_heap t1) r k of
            Some cur \<Rightarrow> (\<exists>src. heap_get (src_heap t1) r k = Some src
                          \<and> recorded t g k = Some (src, cur))
          | None \<Rightarrow> recorded t g k = first_claim funcs k"
    proof (cases "vc_lookup t g k")
      case None
      with c co show ?thesis by (simp add: recorded_def)
    next
      case (Some cur)
      from wf_bound_source[OF Cons.prems(1) Some] obtain src
        where "source_lookup t g k = Some src" by blast
      with Some c s show ?thesis by (simp add: recorded_def)
    qed
  qed
  have rs: "r < length (src_heap t1)" using ep(2) wf_lengths[OF ep(1)] by simp
  note one = func_funcs_exact[OF ep(2) rs tr]
  show ?case
  proof (cases "claim_conflicts (recorded t g) funcs = []")
    case True
    with one obtain u where u: "func_funcs funcs r r t1 = Inr u" by blast
    from func_funcs_step[OF u ep(2)] have st: "inner_step t1 u" by simp
    have wu: "wf_arb u" using ep(1) st by (rule wf_inner_step)
    have fc: "func_claims u = func_claims t"
      using st ep(4) by (simp add: inner_step_def evolves_def)
    have d: "distinct (map fst fcs)" using Cons.prems(2) by simp
    have cl: "\<And>g' funcs'. (g', funcs') \<in> set fcs \<Longrightarrow> claims_of u g' = funcs'"
      using Cons.prems(3) fc by (simp add: claims_of_def)
    have "phase_conflicts (recorded u) fcs = phase_conflicts (recorded t) fcs"
    proof (rule phase_conflicts_cong)
      fix g' funcs' assume m: "(g', funcs') \<in> set fcs"
      with Cons.prems(2) a have ne: "g' \<noteq> g" by force
      show "recorded u g' = recorded t g'"
        using config_step_other[OF Cons.prems(1) e u ne] fc
        by (auto simp: recorded_def claims_of_def fun_eq_iff split: option.splits)
    qed
    with Cons.IH[OF wu d cl] True u unf a show ?thesis by simp
  next
    case False
    with one unf a show ?thesis by simp
  qed
qed

lemma claims_of_member:
  "distinct (map fst (func_claims s)) \<Longrightarrow> (g, funcs) \<in> set (func_claims s) \<Longrightarrow> claims_of s g = funcs"
  by (simp add: claims_of_def)

text \<open>The arbitration raises the first conflict, and nothing if there is none.\<close>

lemma arbitrate_exact:
  assumes "wf_arb s" "distinct (map fst (func_claims s))"
  shows "(all_conflicts s = [] \<longrightarrow> (\<exists>s'. arbitrate s = Inr s'))
       \<and> (all_conflicts s \<noteq> [] \<longrightarrow> arbitrate s = Inl (hd (all_conflicts s)))"
  using func_phase_exact[OF assms(1,2) claims_of_member[OF assms(2)]]
  by (auto simp: arbitrate_def all_conflicts_def)

section \<open>What a conflict is\<close>

lemma option_conflicts_mem:
  "e \<in> set (option_conflicts rec f opts) \<longleftrightarrow>
     (\<exists>k v src cur. (k, v) \<in> set opts \<and> rec k = Some (src, cur) \<and> cur \<noteq> v
        \<and> e = ConfigArbitrateError k v f src cur)"
  by (induction opts) (auto split: option.splits)

lemma claim_conflicts_mem:
  "e \<in> set (claim_conflicts rec funcs) \<longleftrightarrow>
     (\<exists>f opts. (f, opts) \<in> set funcs \<and> e \<in> set (option_conflicts rec f opts))"
proof (induction funcs)
  case Nil
  then show ?case by simp
next
  case (Cons a funcs)
  obtain f opts where a: "a = (f, opts)" by (cases a)
  have "e \<in> set (claim_conflicts rec (a # funcs)) \<longleftrightarrow>
      e \<in> set (option_conflicts rec f opts) \<or> e \<in> set (claim_conflicts rec funcs)"
    by (simp add: a)
  also have "\<dots> \<longleftrightarrow> (\<exists>f' opts'. (f', opts') \<in> set (a # funcs)
      \<and> e \<in> set (option_conflicts rec f' opts'))"
    unfolding Cons.IH a by (simp only: set_simps insert_iff prod.inject) blast
  finally show ?case .
qed

lemma phase_conflicts_mem:
  "e \<in> set (phase_conflicts recs fcs) \<longleftrightarrow>
     (\<exists>g funcs. (g, funcs) \<in> set fcs \<and> e \<in> set (claim_conflicts (recs g) funcs))"
proof (induction fcs)
  case Nil
  then show ?case by simp
next
  case (Cons a fcs)
  obtain g funcs where a: "a = (g, funcs)" by (cases a)
  have "e \<in> set (phase_conflicts recs (a # fcs)) \<longleftrightarrow>
      e \<in> set (claim_conflicts (recs g) funcs) \<or> e \<in> set (phase_conflicts recs fcs)"
    by (simp add: a)
  also have "\<dots> \<longleftrightarrow> (\<exists>g' funcs'. (g', funcs') \<in> set (a # fcs)
      \<and> e \<in> set (claim_conflicts (recs g') funcs'))"
    unfolding Cons.IH a by (simp only: set_simps insert_iff prod.inject) blast
  finally show ?case .
qed

lemma all_conflicts_mem:
  "e \<in> set (all_conflicts s) \<longleftrightarrow>
     (\<exists>g funcs f opts k v src cur.
        (g, funcs) \<in> set (func_claims s) \<and> (f, opts) \<in> set funcs \<and> (k, v) \<in> set opts
        \<and> recorded s g k = Some (src, cur) \<and> cur \<noteq> v
        \<and> e = ConfigArbitrateError k v f src cur)"
  unfolding all_conflicts_def phase_conflicts_mem claim_conflicts_mem option_conflicts_mem
  by blast

lemma first_claim_None:
  "first_claim funcs k = None \<longleftrightarrow> (\<forall>f opts. (f, opts) \<in> set funcs \<longrightarrow> k \<notin> fst ` set opts)"
proof (induction funcs)
  case Nil
  then show ?case by simp
next
  case (Cons a funcs)
  obtain f opts where a: "a = (f, opts)" by (cases a)
  show ?case
  proof (cases "map_of opts k")
    case None
    then have "k \<notin> fst ` set opts" by (simp add: map_of_eq_None_iff)
    with None Cons.IH a show ?thesis by auto
  next
    case (Some v)
    then have "k \<in> fst ` set opts" by (metis map_of_eq_None_iff option.distinct(1))
    with Some a show ?thesis by auto
  qed
qed

text \<open>An option that is claimed is recorded; two claims that differ on it give a conflict.\<close>

lemma claimed_recorded:
  assumes "wf_arb s" "distinct (map fst (func_claims s))"
    and "(g, funcs) \<in> set (func_claims s)" "(f, opts) \<in> set funcs" "(k, v) \<in> set opts"
  shows "\<exists>src cur. recorded s g k = Some (src, cur)"
proof (cases "vc_lookup s g k")
  case None
  from assms(4,5) have "first_claim funcs k \<noteq> None"
    unfolding first_claim_None by force
  with None claims_of_member[OF assms(2,3)] show ?thesis by (auto simp: recorded_def)
next
  case (Some cur)
  from wf_bound_source[OF assms(1) Some] Some show ?thesis by (auto simp: recorded_def)
qed

lemma differing_claims_conflict:
  assumes "wf_arb s" "distinct (map fst (func_claims s))"
    and "(g, funcs) \<in> set (func_claims s)"
    and "(f1, o1) \<in> set funcs" "(f2, o2) \<in> set funcs"
    and "(k, v1) \<in> set o1" "(k, v2) \<in> set o2" "v1 \<noteq> v2"
  shows "all_conflicts s \<noteq> []"
proof -
  from claimed_recorded[OF assms(1,2,3,4,6)] obtain src cur
    where r: "recorded s g k = Some (src, cur)" by blast
  from assms(8) have "cur \<noteq> v1 \<or> cur \<noteq> v2" by auto
  then have "ConfigArbitrateError k v1 f1 src cur \<in> set (all_conflicts s)
      \<or> ConfigArbitrateError k v2 f2 src cur \<in> set (all_conflicts s)"
    unfolding all_conflicts_mem using assms(3-7) r by blast
  then show ?thesis by auto
qed


section \<open>A new claim on an arbitrator without conflicts\<close>

lemma update_absent: "map_of ps k = None \<Longrightarrow> AList.update k v ps = ps @ [(k, v)]"
  by (induction ps) (auto split: if_splits)

lemma claim_func_update:
  "func_claims (claim_func f g opts s) =
     AList.update g (claims_of s g @ [(f, opts)]) (func_claims s)"
  by (simp add: claim_func_def claims_of_def update_absent split: option.splits)

lemma claims_of_claim_func:
  "claims_of (claim_func f g opts s) g' =
     (if g' = g then claims_of s g @ [(f, opts)] else claims_of s g')"
  by (simp add: claims_of_def claim_func_update update_conv')

lemma first_claim_append:
  "first_claim (funcs @ later) k =
     (case first_claim funcs k of Some x \<Rightarrow> Some x | None \<Rightarrow> first_claim later k)"
  by (induction funcs) (auto split: option.splits)

lemma vc_lookup_claim_func [simp]:
  "vc_lookup (claim_func f g opts s) g' k = vc_lookup s g' k"
  "source_lookup (claim_func f g opts s) g' k = source_lookup s g' k"
  by (auto simp: vc_lookup_def source_lookup_def split: option.splits)

lemma recorded_claim_func:
  "recorded (claim_func f g opts s) g' k =
     (if g' = g \<and> vc_lookup s g k = None \<and> first_claim (claims_of s g) k = None
      then map_option (Pair f) (map_of opts k)
      else recorded s g' k)"
  by (auto simp: recorded_def claims_of_claim_func first_claim_append split: option.splits)

lemma option_conflicts_append:
  "option_conflicts rec f (pre @ post) = option_conflicts rec f pre @ option_conflicts rec f post"
  by (induction pre) auto

lemma claim_conflicts_append:
  "claim_conflicts rec (funcs @ later) = claim_conflicts rec funcs @ claim_conflicts rec later"
  by (induction funcs) auto

lemma option_conflicts_cong:
  assumes "\<And>k v. (k, v) \<in> set opts \<Longrightarrow>
      (case rec k of Some (src, cur) \<Rightarrow> (if cur \<noteq> v then [ConfigArbitrateError k v f src cur] else [])
       | None \<Rightarrow> []) =
      (case rec' k of Some (src, cur) \<Rightarrow> (if cur \<noteq> v then [ConfigArbitrateError k v f src cur] else [])
       | None \<Rightarrow> [])"
  shows "option_conflicts rec f opts = option_conflicts rec' f opts"
  using assms
proof (induction opts)
  case Nil
  then show ?case by simp
next
  case (Cons a opts)
  obtain k v where a: "a = (k, v)" by (cases a)
  have "option_conflicts rec f opts = option_conflicts rec' f opts"
    by (rule Cons.IH) (rule Cons.prems, simp)
  with Cons.prems[of k v] a show ?case by simp
qed

lemma claim_conflicts_cong:
  assumes "\<And>f opts k v. (f, opts) \<in> set funcs \<Longrightarrow> (k, v) \<in> set opts \<Longrightarrow> rec k = rec' k"
  shows "claim_conflicts rec funcs = claim_conflicts rec' funcs"
  using assms
proof (induction funcs)
  case Nil
  then show ?case by simp
next
  case (Cons a funcs)
  obtain f opts where a: "a = (f, opts)" by (cases a)
  have "claim_conflicts rec funcs = claim_conflicts rec' funcs"
  proof (rule Cons.IH)
    fix f' opts' k v assume "(f', opts') \<in> set funcs" "(k, v) \<in> set opts'"
    then show "rec k = rec' k" using Cons.prems[of f' opts' k v] by simp
  qed
  moreover have "option_conflicts rec f opts = option_conflicts rec' f opts"
  proof (rule option_conflicts_cong)
    fix k v assume "(k, v) \<in> set opts"
    then have "rec k = rec' k" using Cons.prems[of f opts k v] a by simp
    then show "(case rec k of Some (src, cur) \<Rightarrow> (if cur \<noteq> v then [ConfigArbitrateError k v f src cur] else [])
       | None \<Rightarrow> []) =
      (case rec' k of Some (src, cur) \<Rightarrow> (if cur \<noteq> v then [ConfigArbitrateError k v f src cur] else [])
       | None \<Rightarrow> [])" by simp
  qed
  ultimately show ?case using a by simp
qed

lemma phase_conflicts_Nil:
  "phase_conflicts recs fcs = [] \<longleftrightarrow>
     (\<forall>g funcs. (g, funcs) \<in> set fcs \<longrightarrow> claim_conflicts (recs g) funcs = [])"
proof (induction fcs)
  case Nil
  then show ?case by simp
next
  case (Cons a fcs)
  obtain g funcs where a: "a = (g, funcs)" by (cases a)
  show ?case unfolding a by (simp add: Cons.IH) blast
qed

lemma phase_conflicts_update:
  assumes "distinct (map fst fcs)"
    and "\<And>g' funcs'. (g', funcs') \<in> set fcs \<Longrightarrow> g' \<noteq> g \<Longrightarrow> claim_conflicts (recs g') funcs' = []"
  shows "phase_conflicts recs (AList.update g new fcs) = claim_conflicts (recs g) new"
  using assms
proof (induction fcs)
  case Nil
  then show ?case by simp
next
  case (Cons a fcs)
  obtain g0 funcs0 where a: "a = (g0, funcs0)" by (cases a)
  show ?case
  proof (cases "g0 = g")
    case True
    have "phase_conflicts recs fcs = []"
      unfolding phase_conflicts_Nil
    proof (intro allI impI)
      fix g' funcs' assume m: "(g', funcs') \<in> set fcs"
      with Cons.prems(1) a True have "g' \<noteq> g" by force
      with m show "claim_conflicts (recs g') funcs' = []" using Cons.prems(2)[of g' funcs'] by simp
    qed
    with True a show ?thesis by simp
  next
    case False
    have d: "distinct (map fst fcs)" using Cons.prems(1) by simp
    have "phase_conflicts recs (AList.update g new fcs) = claim_conflicts (recs g) new"
    proof (rule Cons.IH[OF d])
      fix g' funcs' assume "(g', funcs') \<in> set fcs" "g' \<noteq> g"
      then show "claim_conflicts (recs g') funcs' = []" using Cons.prems(2)[of g' funcs'] by simp
    qed
    moreover have "claim_conflicts (recs g0) funcs0 = []"
      using Cons.prems(2)[of g0 funcs0] a False by simp
    ultimately show ?thesis using a False by simp
  qed
qed

text \<open>
  On an arbitrator whose claims have no conflict, the conflicts after one more claim
  are the options of that claim that differ from what is recorded.
\<close>

lemma claim_on_consistent:
  assumes "distinct (map fst (func_claims s))" "all_conflicts s = []" "distinct (map fst opts)"
  shows "all_conflicts (claim_func f g opts s) = option_conflicts (recorded s g) f opts"
proof -
  let ?s2 = "claim_func f g opts s"
  from assms(2) have none: "\<And>g' funcs'. (g', funcs') \<in> set (func_claims s)
      \<Longrightarrow> claim_conflicts (recorded s g') funcs' = []"
    by (simp add: all_conflicts_def phase_conflicts_Nil)
  have old: "claim_conflicts (recorded s g) (claims_of s g) = []"
  proof (cases "map_of (func_claims s) g")
    case None
    then show ?thesis by (simp add: claims_of_def)
  next
    case (Some c)
    then have "(g, c) \<in> set (func_claims s)" by (rule map_of_SomeD)
    with none Some show ?thesis by (simp add: claims_of_def)
  qed
  have "all_conflicts ?s2 =
      phase_conflicts (recorded ?s2) (AList.update g (claims_of s g @ [(f, opts)]) (func_claims s))"
    by (simp add: all_conflicts_def claim_func_update)
  also have "\<dots> = claim_conflicts (recorded ?s2 g) (claims_of s g @ [(f, opts)])"
  proof (rule phase_conflicts_update[OF assms(1)])
    fix g' funcs' assume m: "(g', funcs') \<in> set (func_claims s)" "g' \<noteq> g"
    then have "recorded ?s2 g' = recorded s g'" by (simp add: fun_eq_iff recorded_claim_func)
    with none[OF m(1)] show "claim_conflicts (recorded ?s2 g') funcs' = []" by simp
  qed
  also have "\<dots> = claim_conflicts (recorded ?s2 g) (claims_of s g)
      @ option_conflicts (recorded ?s2 g) f opts"
    by (simp add: claim_conflicts_append)
  also have "claim_conflicts (recorded ?s2 g) (claims_of s g)
      = claim_conflicts (recorded s g) (claims_of s g)"
  proof (rule claim_conflicts_cong)
    fix f' opts' k v assume "(f', opts') \<in> set (claims_of s g)" "(k, v) \<in> set opts'"
    then have "first_claim (claims_of s g) k \<noteq> None"
      unfolding first_claim_None by force
    then show "recorded ?s2 g k = recorded s g k" by (auto simp: recorded_claim_func)
  qed
  also have "option_conflicts (recorded ?s2 g) f opts = option_conflicts (recorded s g) f opts"
  proof (rule option_conflicts_cong)
    fix k v assume m: "(k, v) \<in> set opts"
    with assms(3) have mk: "map_of opts k = Some v" by (simp add: map_of_is_SomeI)
    show "(case recorded ?s2 g k of
             Some (src, cur) \<Rightarrow> (if cur \<noteq> v then [ConfigArbitrateError k v f src cur] else [])
           | None \<Rightarrow> []) =
          (case recorded s g k of
             Some (src, cur) \<Rightarrow> (if cur \<noteq> v then [ConfigArbitrateError k v f src cur] else [])
           | None \<Rightarrow> [])"
    proof (cases "vc_lookup s g k = None \<and> first_claim (claims_of s g) k = None")
      case True
      then have "recorded s g k = None" by (simp add: recorded_def)
      moreover from True mk have "recorded ?s2 g k = Some (f, v)"
        by (simp add: recorded_claim_func)
      ultimately show ?thesis by simp
    next
      case False
      then have "recorded ?s2 g k = recorded s g k" by (auto simp: recorded_claim_func)
      then show ?thesis by simp
    qed
  qed
  finally show ?thesis using old by simp
qed



section \<open>Functionality claims on different options\<close>

text \<open>
  Claim C8, as amended. On an arbitrator with no functionality claims yet (whatever
  baselines \<open>setup\<close> has given it and whatever performance claims it holds), register
  any sequence of functionality claims of which no two target the same option of the
  same config and none demands for an option a value other than the one a baseline has
  given it. The call of the arbitrator raises nothing; every claimed option has the
  claimed value in the resulting virtual configs; and each live config passed by name
  gets, attribute by attribute, the value of its virtual config where there is one and
  keeps its own value elsewhere, so a claimed option of a config passed in has the
  claimed value on the live object.
\<close>

theorem disjoint_claims_resolve:
  fixes s0 :: "('v, 'f) arbitrator"
  assumes "wf_arb s0" and "func_claims s0 = []"
    and "distinct (claim_targets claims)"
    and "\<forall>f g opts k v. (f, g, opts) \<in> set claims \<longrightarrow> (k, v) \<in> set opts \<longrightarrow>
           vc_lookup s0 g k = None \<or> vc_lookup s0 g k = Some v"
  shows "\<exists>s' configs'.
           arbitrator_call (register claims s0) configs = Inr (s', configs')
           \<and> map fst configs' = map fst configs
           \<and> (\<forall>i k. i < length configs \<longrightarrow>
                 map_of (snd (configs' ! i)) k =
                   (case vc_lookup s' (fst (configs ! i)) k of
                      Some v \<Rightarrow> Some v
                    | None \<Rightarrow> map_of (snd (configs ! i)) k))
           \<and> (\<forall>f g opts k v. (f, g, opts) \<in> set claims \<longrightarrow> (k, v) \<in> set opts \<longrightarrow>
                 vc_lookup s' g k = Some v
                 \<and> (\<forall>i. i < length configs \<longrightarrow> fst (configs ! i) = g
                       \<longrightarrow> map_of (snd (configs' ! i)) k = Some v))"
proof -
  let ?s = "register claims s0"
  have w: "wf_arb ?s" using assms(1) by (rule wf_register)
  have d0: "distinct (map fst (func_claims s0))" using assms(2) by simp
  have claimed: "\<And>g funcs f opts. (g, funcs) \<in> set (func_claims ?s) \<Longrightarrow> (f, opts) \<in> set funcs
      \<Longrightarrow> (f, g, opts) \<in> set claims"
    using register_claimed[OF d0, of _ claims] assms(2) by fastforce
  have "\<exists>s'. arbitrate ?s = Inr s'"
  proof (rule arbitrate_consistent[OF w])
    fix g funcs f opts k v cur
    assume "(g, funcs) \<in> set (func_claims ?s)" "(f, opts) \<in> set funcs" "(k, v) \<in> set opts"
      and cur: "vc_lookup ?s g k = Some cur"
    then have "(f, g, opts) \<in> set claims" "(k, v) \<in> set opts" using claimed by blast+
    with assms(4) have "vc_lookup s0 g k = None \<or> vc_lookup s0 g k = Some v" by blast
    with cur show "cur = v" by simp
  next
    fix g funcs f opts k v funcs' f' opts' v'
    assume "(g, funcs) \<in> set (func_claims ?s)" "(f, opts) \<in> set funcs" "(k, v) \<in> set opts"
      "(g, funcs') \<in> set (func_claims ?s)" "(f', opts') \<in> set funcs'" "(k, v') \<in> set opts'"
    then have "(f, g, opts) \<in> set claims" "(f', g, opts') \<in> set claims"
      "(k, v) \<in> set opts" "(k, v') \<in> set opts'"
      using claimed by blast+
    from distinct_targets_agree[OF assms(3) this(1,3,2,4)] show "v' = v" .
  qed
  then obtain s' where run: "arbitrate ?s = Inr s'" by blast
  note post = arbitrate_Inr[OF w run]
  let ?c = "map (apply_virtual s') configs"
  have call: "arbitrator_call ?s configs = Inr (s', ?c)"
    using run by (simp add: arbitrator_call_def)
  have names: "map fst ?c = map fst configs"
    using apply_virtual_attr[OF post(1)] by (simp add: comp_def)
  have attrs: "\<And>i k. i < length configs \<Longrightarrow>
      map_of (snd (?c ! i)) k =
        (case vc_lookup s' (fst (configs ! i)) k of
           Some v \<Rightarrow> Some v
         | None \<Rightarrow> map_of (snd (configs ! i)) k)"
    using apply_virtual_attr[OF post(1)] by simp
  have vals: "\<And>f g opts k v. (f, g, opts) \<in> set claims \<Longrightarrow> (k, v) \<in> set opts
      \<Longrightarrow> vc_lookup s' g k = Some v"
  proof -
    fix f g opts k v assume m: "(f, g, opts) \<in> set claims" "(k, v) \<in> set opts"
    with register_claimed[OF d0, of g claims f opts]
    obtain funcs where "(g, funcs) \<in> set (func_claims ?s)" "(f, opts) \<in> set funcs" by blast
    from post(3)[OF this m(2)] show "vc_lookup s' g k = Some v" .
  qed
  show ?thesis
  proof (intro exI conjI allI impI)
    show "arbitrator_call ?s configs = Inr (s', ?c)" by (rule call)
    show "map fst ?c = map fst configs" by (rule names)
  next
    fix i k assume "i < length configs"
    then show "map_of (snd (?c ! i)) k =
        (case vc_lookup s' (fst (configs ! i)) k of
           Some v \<Rightarrow> Some v
         | None \<Rightarrow> map_of (snd (configs ! i)) k)"
      by (rule attrs)
  next
    fix f g opts k v assume "(f, g, opts) \<in> set claims" "(k, v) \<in> set opts"
    then show "vc_lookup s' g k = Some v" by (rule vals)
  next
    fix f g opts k v i
    assume m: "(f, g, opts) \<in> set claims" "(k, v) \<in> set opts"
      and i: "i < length configs" "fst (configs ! i) = g"
    from vals[OF m] attrs[OF i(1), of k] i(2)
    show "map_of (snd (?c ! i)) k = Some v" by simp
  qed
qed

text \<open>
  The streaming claims of \<open>LlmArgs\<close> on the three live configs, after the baseline
  of a GPU before Ampere, with which they agree.
\<close>

theorem disjoint_claims_resolve_witness:
  "wf_arb baseline_once \<and> func_claims baseline_once = []
   \<and> distinct (claim_targets streaming_claims)
   \<and> vc_lookup baseline_once ''kv_cache_config'' ''enable_block_reuse'' = Some False
   \<and> (\<exists>s' configs'.
     arbitrator_call (register streaming_claims baseline_once) live_configs = Inr (s', configs')
     \<and> map fst configs' = [''plugin_config'', ''kv_cache_config'', ''build_config'']
     \<and> vc_lookup s' ''plugin_config'' ''use_paged_context_fmha'' = Some False
     \<and> vc_lookup s' ''kv_cache_config'' ''enable_block_reuse'' = Some False
     \<and> map_of (snd (configs' ! 0)) ''use_paged_context_fmha'' = Some False
     \<and> map_of (snd (configs' ! 1)) ''enable_block_reuse'' = Some False)"
proof -
  have w: "wf_arb baseline_once" and f: "func_claims baseline_once = []"
    and b: "vc_lookup baseline_once ''kv_cache_config'' ''enable_block_reuse'' = Some False"
    by (simp_all add: wf_arb_def baseline_once_def vc_lookup_def heap_get_def)
  have d: "distinct (claim_targets streaming_claims)"
    by (simp add: claim_targets_def streaming_claims_def)
  have agree: "\<forall>f g opts k v. (f, g, opts) \<in> set streaming_claims \<longrightarrow> (k, v) \<in> set opts \<longrightarrow>
      vc_lookup baseline_once g k = None \<or> vc_lookup baseline_once g k = Some v"
    by (auto simp: streaming_claims_def baseline_once_def vc_lookup_def heap_get_def)
  from disjoint_claims_resolve[OF w f d agree, of live_configs]
  obtain s' configs' where r:
    "arbitrator_call (register streaming_claims baseline_once) live_configs = Inr (s', configs')"
    "map fst configs' = map fst live_configs"
    "\<And>f g opts k v. (f, g, opts) \<in> set streaming_claims \<Longrightarrow> (k, v) \<in> set opts \<Longrightarrow>
        vc_lookup s' g k = Some v
        \<and> (\<forall>i. i < length live_configs \<longrightarrow> fst (live_configs ! i) = g
              \<longrightarrow> map_of (snd (configs' ! i)) k = Some v)"
    by blast
  have a: "vc_lookup s' ''plugin_config'' ''use_paged_context_fmha'' = Some False
      \<and> map_of (snd (configs' ! 0)) ''use_paged_context_fmha'' = Some False"
    using r(3)[of "''streamingllm''" "''plugin_config''"
        "[(''streamingllm'', True), (''use_paged_context_fmha'', False)]"
        "''use_paged_context_fmha''" False]
    by (simp add: streaming_claims_def live_configs_def)
  have c: "vc_lookup s' ''kv_cache_config'' ''enable_block_reuse'' = Some False
      \<and> map_of (snd (configs' ! 1)) ''enable_block_reuse'' = Some False"
    using r(3)[of "''streamingllm''" "''kv_cache_config''" "[(''enable_block_reuse'', False)]"
        "''enable_block_reuse''" False]
    by (simp add: streaming_claims_def live_configs_def)
  from r(1,2) a c have "\<exists>s' configs'.
     arbitrator_call (register streaming_claims baseline_once) live_configs = Inr (s', configs')
     \<and> map fst configs' = [''plugin_config'', ''kv_cache_config'', ''build_config'']
     \<and> vc_lookup s' ''plugin_config'' ''use_paged_context_fmha'' = Some False
     \<and> vc_lookup s' ''kv_cache_config'' ''enable_block_reuse'' = Some False
     \<and> map_of (snd (configs' ! 0)) ''use_paged_context_fmha'' = Some False
     \<and> map_of (snd (configs' ! 1)) ''enable_block_reuse'' = Some False"
    by (auto simp: live_configs_def)
  with w f d b show ?thesis by blast
qed

text \<open>
  Claim C8 as stated asks only that no two claims target the same option. The two
  claims of block reuse target different options, but on a GPU before Ampere the
  baseline has set \<open>enable_block_reuse\<close> to \<open>False\<close>, and the call raises.
\<close>

theorem baseline_blocks_disjoint_claims:
  "distinct (claim_targets block_reuse_claims)
   \<and> arbitrator_call (register block_reuse_claims baseline_once) live_configs =
       Inl (ConfigArbitrateError ''enable_block_reuse'' True ''enable_block_reuse''
              ''pre-ampere not supported'' False)"
  by (simp add: claim_targets_def block_reuse_claims_def baseline_once_def register_def
      arbitrator_call_def arb_eval)


section \<open>Runs of the build pipeline\<close>

lemma completed_simps [simp]:
  "completed [] = 0"
  "completed (Returns l # hs) = Suc (completed hs)"
  "completed (Raises e # hs) = 0"
  by (simp_all add: completed_def)

lemma completed_le: "completed hs \<le> length hs"
  by (simp add: completed_def length_takeWhile_le)

lemma first_raised_None: "first_raised hs = None \<longleftrightarrow> completed hs = length hs"
  by (induction hs rule: first_raised.induct) simp_all

lemma length_latencies: "length (latencies hs) = completed hs"
  by (induction hs rule: latencies.induct) simp_all

lemma run_steps_from:
  assumes "length (labels p) = length (step_handlers p)"
    and "counter p + m = length (labels p)"
  shows "fst (run_steps m p) = first_raised (drop (counter p) (step_handlers p))
     \<and> ptrace (snd (run_steps m p)) =
         ptrace p
         @ concat (map (\<lambda>j. [Handler j, ReleaseGc])
             [counter p ..< counter p + completed (drop (counter p) (step_handlers p))])
         @ (if completed (drop (counter p) (step_handlers p)) < m
            then [Handler (counter p + completed (drop (counter p) (step_handlers p)))] else [])
     \<and> build_steps_info (snd (run_steps m p)) =
         build_steps_info p
         @ zip (drop (counter p) (labels p)) (latencies (drop (counter p) (step_handlers p)))
     \<and> counter (snd (run_steps m p)) =
         counter p + completed (drop (counter p) (step_handlers p))
     \<and> labels (snd (run_steps m p)) = labels p
     \<and> step_handlers (snd (run_steps m p)) = step_handlers p"
  using assms
proof (induction m arbitrary: p)
  case 0
  then show ?case by simp
next
  case (Suc m)
  let ?c = "counter p"
  from Suc.prems have c: "?c < length (labels p)" "?c < length (step_handlers p)" by simp_all
  then have dl: "drop ?c (labels p) = labels p ! ?c # drop (Suc ?c) (labels p)"
    and dh: "drop ?c (step_handlers p) = step_handlers p ! ?c # drop (Suc ?c) (step_handlers p)"
    by (simp_all add: Cons_nth_drop_Suc)
  show ?case
  proof (cases "step_handlers p ! ?c")
    case (Raises e)
    with c have "step_forward p = (Some (Raised e), p\<lparr>ptrace := ptrace p @ [Handler ?c]\<rparr>)"
      by (simp add: step_forward_def)
    then show ?thesis using Raises dh by simp
  next
    case (Returns l)
    let ?p' = "p\<lparr>ptrace := ptrace p @ [Handler ?c, ReleaseGc],
                 build_steps_info := build_steps_info p @ [(labels p ! ?c, l)],
                 counter := ?c + 1\<rparr>"
    from Returns c have sf: "step_forward p = (None, ?p')" by (simp add: step_forward_def)
    have "length (labels ?p') = length (step_handlers ?p')" "counter ?p' + m = length (labels ?p')"
      using Suc.prems by simp_all
    note ih = Suc.IH[OF this]
    have run: "run_steps (Suc m) p = run_steps m ?p'" using sf by simp
    let ?k = "completed (drop (Suc ?c) (step_handlers p))"
    have up: "[?c ..< ?c + Suc ?k] = ?c # [Suc ?c ..< Suc ?c + ?k]"
      by (simp add: upt_conv_Cons)
    show ?thesis unfolding run using ih Returns dh dl up by simp
  qed
qed

text \<open>A pipeline built by \<open>__init__\<close> and called once.\<close>

lemma BuildPipeline_call_run:
  assumes "BuildPipeline_init ls hs info = Inr p"
  shows "fst (BuildPipeline_call p) = first_raised hs
     \<and> ptrace (snd (BuildPipeline_call p)) =
         concat (map (\<lambda>j. [Handler j, ReleaseGc]) [0 ..< completed hs])
         @ (if completed hs < length hs then [Handler (completed hs)] else [])
     \<and> build_steps_info (snd (BuildPipeline_call p)) = info @ zip ls (latencies hs)
     \<and> counter (snd (BuildPipeline_call p)) = completed hs"
proof -
  from assms have p: "labels p = ls" "step_handlers p = hs" "build_steps_info p = info"
    "counter p = 0" "ptrace p = []" "length ls = length hs"
    by (auto simp: BuildPipeline_init_def split: if_splits)
  have "length (labels p) = length (step_handlers p)" "counter p + length (labels p) = length (labels p)"
    using p by simp_all
  from run_steps_from[OF this] p show ?thesis
    by (simp add: BuildPipeline_call_def)
qed

lemma released_pairs:
  "released_after_each (concat (map (\<lambda>j. [Handler j, ReleaseGc]) js) @ tr) = released_after_each tr"
  by (induction js) simp_all

lemma steps_of_pairs:
  "filter is_step (concat (map (\<lambda>j. [Handler j, ReleaseGc]) js)) = map Handler js"
  by (induction js) simp_all

text \<open>The run of the loader inside its \<open>with\<close> statement, in full.\<close>

lemma with_ModelLoader_run:
  assumes "ml_model_format ml \<noteq> TLLM_ENGINE"
  shows "ml_trace (snd (with_ModelLoader ml edir)) =
       ml_trace ml
       @ concat (map (\<lambda>j. [Handler j, ReleaseGc])
           [0 ..< steps_called (map snd (ml_build_pipeline ml))])
       @ (if completed (map snd (ml_build_pipeline ml)) = length (ml_build_pipeline ml)
          then (case edir of None \<Rightarrow> [ReleaseGc] | Some d \<Rightarrow> [SaveEngine d, ReleaseGc])
          else [])"
    and "ml_build_steps_info (snd (with_ModelLoader ml edir)) =
       ml_build_steps_info ml
       @ zip (map fst (ml_build_pipeline ml)) (latencies (map snd (ml_build_pipeline ml)))"
    and "first_raised (map snd (ml_build_pipeline ml)) = Some e
       \<Longrightarrow> fst (with_ModelLoader ml edir) = Inl e"
proof -
  let ?hs = "map snd (ml_build_pipeline ml)" and ?ls = "map fst (ml_build_pipeline ml)"
  obtain p where p: "BuildPipeline_init ?ls ?hs (ml_build_steps_info ml) = Inr p"
    by (simp add: BuildPipeline_init_def)
  note run = BuildPipeline_call_run[OF p]
  obtain err p' where c: "BuildPipeline_call p = (err, p')" by (cases "BuildPipeline_call p")
  with run have err: "err = first_raised ?hs"
    and tr: "ptrace p' = concat (map (\<lambda>j. [Handler j, ReleaseGc]) [0 ..< completed ?hs])
         @ (if completed ?hs < length ?hs then [Handler (completed ?hs)] else [])"
    and info: "build_steps_info p' = ml_build_steps_info ml @ zip ?ls (latencies ?hs)"
    by simp_all
  have le: "completed ?hs \<le> length ?hs" by (rule completed_le)
  show "ml_build_steps_info (snd (with_ModelLoader ml edir)) =
       ml_build_steps_info ml @ zip ?ls (latencies ?hs)"
    using assms p c info
    by (simp add: with_ModelLoader_def ModelLoader_call_def split: option.splits prod.splits)
  show "first_raised ?hs = Some e \<Longrightarrow> fst (with_ModelLoader ml edir) = Inl e"
    using assms p c err
    by (simp add: with_ModelLoader_def ModelLoader_call_def split: option.splits prod.splits)
  show "ml_trace (snd (with_ModelLoader ml edir)) =
       ml_trace ml
       @ concat (map (\<lambda>j. [Handler j, ReleaseGc]) [0 ..< steps_called ?hs])
       @ (if completed ?hs = length (ml_build_pipeline ml)
          then (case edir of None \<Rightarrow> [ReleaseGc] | Some d \<Rightarrow> [SaveEngine d, ReleaseGc])
          else [])"
  proof (cases "completed ?hs < length ?hs")
    case True
    then have "first_raised ?hs \<noteq> None" by (simp add: first_raised_None)
    then obtain e' where e': "err = Some e'" using err by auto
    from True have sc: "steps_called ?hs = Suc (completed ?hs)" by (simp add: steps_called_def)
    from True assms p c e' tr show ?thesis
      by (simp add: with_ModelLoader_def ModelLoader_call_def sc)
  next
    case False
    with le have all: "completed ?hs = length ?hs" by simp
    then have none: "err = None" using err by (simp add: first_raised_None)
    from all have sc: "steps_called ?hs = completed ?hs" by (simp add: steps_called_def)
    from all assms p c none tr show ?thesis
      by (simp add: with_ModelLoader_def ModelLoader_call_def sc split: option.splits)
  qed
qed

text \<open>
  Claim C6. The loader runs the pipeline inside its \<open>with\<close> statement. The steps of
  \<open>_build_pipeline\<close> are called in the order they were registered, from the first up
  to the first that raises; every step called is directly followed by \<open>release_gc\<close>,
  by the pipeline after a step that returns and by \<open>__exit__\<close> of the loader after a
  step that raises; no step after one that raises is called and its exception is the
  result; and the \<open>(label, latency)\<close> entries of the steps that returned before it
  are appended to the build statistics, in order.
\<close>

theorem build_steps_in_order_and_released:
  assumes "ml_model_format ml \<noteq> TLLM_ENGINE"
  shows "filter is_step (drop (length (ml_trace ml)) (ml_trace (snd (with_ModelLoader ml edir))))
           = map Handler [0 ..< steps_called (map snd (ml_build_pipeline ml))]
     \<and> released_after_each (drop (length (ml_trace ml)) (ml_trace (snd (with_ModelLoader ml edir))))
     \<and> ml_trace (snd (with_ModelLoader ml edir)) =
         ml_trace ml
         @ concat (map (\<lambda>j. [Handler j, ReleaseGc])
             [0 ..< steps_called (map snd (ml_build_pipeline ml))])
         @ (if completed (map snd (ml_build_pipeline ml)) = length (ml_build_pipeline ml)
            then (case edir of None \<Rightarrow> [ReleaseGc] | Some d \<Rightarrow> [SaveEngine d, ReleaseGc])
            else [])
     \<and> steps_called (map snd (ml_build_pipeline ml)) =
         (if completed (map snd (ml_build_pipeline ml)) < length (ml_build_pipeline ml)
          then Suc (completed (map snd (ml_build_pipeline ml)))
          else length (ml_build_pipeline ml))
     \<and> (\<forall>e. first_raised (map snd (ml_build_pipeline ml)) = Some e
           \<longrightarrow> fst (with_ModelLoader ml edir) = Inl e
               \<and> completed (map snd (ml_build_pipeline ml)) < length (ml_build_pipeline ml))
     \<and> ml_build_steps_info (snd (with_ModelLoader ml edir)) =
         ml_build_steps_info ml
         @ zip (map fst (ml_build_pipeline ml)) (latencies (map snd (ml_build_pipeline ml)))
     \<and> length (latencies (map snd (ml_build_pipeline ml)))
         = completed (map snd (ml_build_pipeline ml))"
proof -
  let ?hs = "map snd (ml_build_pipeline ml)"
  note run = with_ModelLoader_run[OF assms, where edir = edir]
  have le: "completed ?hs \<le> length ?hs" by (rule completed_le)
  have new: "drop (length (ml_trace ml)) (ml_trace (snd (with_ModelLoader ml edir))) =
       concat (map (\<lambda>j. [Handler j, ReleaseGc]) [0 ..< steps_called ?hs])
       @ (if completed ?hs = length (ml_build_pipeline ml)
          then (case edir of None \<Rightarrow> [ReleaseGc] | Some d \<Rightarrow> [SaveEngine d, ReleaseGc])
          else [])"
    unfolding run(1) by simp
  have 1: "filter is_step (drop (length (ml_trace ml)) (ml_trace (snd (with_ModelLoader ml edir))))
           = map Handler [0 ..< steps_called ?hs]"
    unfolding new by (simp add: steps_of_pairs split: option.splits)
  have 2: "released_after_each
       (drop (length (ml_trace ml)) (ml_trace (snd (with_ModelLoader ml edir))))"
    unfolding new by (simp add: released_pairs split: option.splits)
  have 3: "steps_called ?hs =
      (if completed ?hs < length (ml_build_pipeline ml) then Suc (completed ?hs)
       else length (ml_build_pipeline ml))"
    using le by (simp add: steps_called_def)
  have 4: "\<forall>e. first_raised ?hs = Some e
      \<longrightarrow> fst (with_ModelLoader ml edir) = Inl e
          \<and> completed ?hs < length (ml_build_pipeline ml)"
  proof (intro allI impI conjI)
    fix e assume e: "first_raised ?hs = Some e"
    then show "fst (with_ModelLoader ml edir) = Inl e" by (rule run(3))
    from e have "completed ?hs \<noteq> length ?hs" using first_raised_None[of ?hs] by simp
    with le show "completed ?hs < length (ml_build_pipeline ml)" by simp
  qed
  from 1 2 3 4 run(1,2) show ?thesis by (simp add: length_latencies)
qed

text \<open>The loader of a Hugging Face model whose second step raises.\<close>

theorem build_steps_in_order_and_released_witness:
  "ml_model_format failing_loader \<noteq> TLLM_ENGINE
   \<and> fst (with_ModelLoader failing_loader (Some ''/engines/llama'')) = Inl (Raised ''out of memory'')
   \<and> ml_trace (snd (with_ModelLoader failing_loader (Some ''/engines/llama'')))
       = [Handler 0, ReleaseGc, Handler 1, ReleaseGc]
   \<and> ml_build_steps_info (snd (with_ModelLoader failing_loader (Some ''/engines/llama'')))
       = [(''Loading HF model to memory'', 7)]
   \<and> ml_trace (snd (with_ModelLoader building_loader (Some ''/engines/llama'')))
       = [Handler 0, ReleaseGc, Handler 1, ReleaseGc, SaveEngine ''/engines/llama'', ReleaseGc]"
proof -
  have f: "ml_model_format failing_loader \<noteq> TLLM_ENGINE"
    and b: "ml_model_format building_loader \<noteq> TLLM_ENGINE"
    by (simp_all add: failing_loader_def building_loader_def)
  have fr: "first_raised (map snd (ml_build_pipeline failing_loader))
      = Some (Raised ''out of memory'')"
    by (simp add: failing_loader_def)
  note t = build_steps_in_order_and_released[OF f, of "Some ''/engines/llama''"]
  note u = build_steps_in_order_and_released[OF b, of "Some ''/engines/llama''"]
  from t fr have 1: "fst (with_ModelLoader failing_loader (Some ''/engines/llama''))
      = Inl (Raised ''out of memory'')" by blast
  from t have 2: "ml_trace (snd (with_ModelLoader failing_loader (Some ''/engines/llama'')))
       = [Handler 0, ReleaseGc, Handler 1, ReleaseGc]"
    by (simp add: failing_loader_def steps_called_def upt_rec)
  from t have 3: "ml_build_steps_info (snd (with_ModelLoader failing_loader (Some ''/engines/llama'')))
       = [(''Loading HF model to memory'', 7)]"
    by (simp add: failing_loader_def)
  from u have 4: "ml_trace (snd (with_ModelLoader building_loader (Some ''/engines/llama'')))
       = [Handler 0, ReleaseGc, Handler 1, ReleaseGc, SaveEngine ''/engines/llama'', ReleaseGc]"
    by (simp add: building_loader_def failing_loader_def steps_called_def upt_rec)
  from f 1 2 3 4 show ?thesis by simp
qed

section \<open>The cached model loader: build cache and storage\<close>

lemma enabled_iff:
  "truthy (build_cache_enabled env l) \<longleftrightarrow>
     (truthy (enable_build_cache l) \<or> env_enable_build_cache env)
     \<and> model_format l = HF \<and> \<not> auto_parallel l"
  by (auto simp: build_cache_enabled_def py_and_def py_or_def py_not_def)

lemma enabled_frame [simp]:
  "build_cache_enabled env (l\<lparr>levents := ev\<rparr>) = build_cache_enabled env l"
  "build_cache_enabled env (l\<lparr>has_cache_stage := b\<rparr>) = build_cache_enabled env l"
  "build_cache_enabled env (l\<lparr>cache_hitted := b\<rparr>) = build_cache_enabled env l"
  "build_cache_enabled env (l\<lparr>cache_info := i\<rparr>) = build_cache_enabled env l"
  "build_cache_enabled env (l\<lparr>hf_model_dir := d\<rparr>) = build_cache_enabled env l"
  by (simp_all add: build_cache_enabled_def)

lemma has_storage_frame [simp]:
  "has_storage env (l\<lparr>levents := ev\<rparr>) = has_storage env l"
  "has_storage env (l\<lparr>hf_model_dir := d\<rparr>) = has_storage env l"
  by (simp_all add: has_storage_def is_local_model_def)

lemma has_storage_staged:
  "has_cache_stage l \<Longrightarrow> has_storage env (l\<lparr>has_cache_stage := True\<rparr>) = has_storage env l"
  by (simp add: has_storage_def is_local_model_def)

text \<open>Without the build cache: one build, into the workspace.\<close>

lemma build_model_disabled:
  assumes "\<not> truthy (build_cache_enabled env l)" "model_format l \<noteq> TLLM_ENGINE"
  shows "snd (build_model env l) =
           l\<lparr>levents := levents l @ [BuildTask (workspace l @ ''/tmp.engine'')]\<rparr>"
    and "fst (build_model env l) =
      (case build_outcome env (workspace l @ ''/tmp.engine'') of
         Some e \<Rightarrow> Inl (BuildRaised e)
       | None \<Rightarrow> Inr (workspace l @ ''/tmp.engine''))"
  using assms
  by (simp_all add: build_model_def Let_def get_engine_dir_def build_task_def split: option.splits)

text \<open>With the build cache and enough storage: the build inside the write guard.\<close>

lemma build_model_guarded:
  assumes "truthy (build_cache_enabled env l)" "has_storage env l" "has_cache_stage l"
    and "hf_model_dir l = Some d" "build_outcome env (guard_dir env) = None"
  shows "build_model env l =
     (Inr (stage_engine_path env),
      l\<lparr>cache_hitted := True,
        levents := levents l @ [GuardEnter, BuildTask (guard_dir env), GuardPublish, StageLookup]\<rparr>)"
proof -
  from assms(1) have f: "model_format l = HF" by (simp add: enabled_iff)
  show ?thesis using assms f
    by (simp add: build_model_def Let_def guarded_build_def build_task_def get_engine_dir_def
        get_engine_cache_stage_def)
qed

text \<open>With the build cache and too little storage: the build at the stage's engine path.\<close>

lemma build_model_low_storage:
  assumes "truthy (build_cache_enabled env l)" "\<not> has_storage env l"
    and "hf_model_dir l = Some d" "build_outcome env (stage_engine_path env) = None"
  shows "build_model env l =
     (Inr (stage_engine_path env),
      l\<lparr>cache_hitted := False, cache_info := Some ''The cache root directory is too small.'',
        levents := levents l @ [StageLookup, BuildTask (stage_engine_path env), StageLookup]\<rparr>)"
proof -
  from assms(1) have f: "model_format l = HF" by (simp add: enabled_iff)
  show ?thesis using assms f
    by (simp add: build_model_def Let_def build_task_def get_engine_dir_def
        get_engine_cache_stage_def)
qed

lemma staged_props:
  "has_cache_stage (staged env l)"
  "\<exists>d. hf_model_dir (staged env l) = Some d"
  "build_cache_enabled env (staged env l) = build_cache_enabled env l"
  "has_storage env (staged env l) = has_storage env (l\<lparr>has_cache_stage := True\<rparr>)"
  by (simp_all add: staged_def build_cache_enabled_def has_storage_def is_local_model_def
      split: model_ref.splits)

lemma call_enabled_uncached:
  assumes "truthy (build_cache_enabled env l)" "\<not> stage_is_cached env"
  shows "CachedModelLoader_call env l = build_model env (staged env l)"
proof -
  from assms(1) have f: "model_format l = HF" by (simp add: enabled_iff)
  show ?thesis using assms f
    by (simp add: CachedModelLoader_call_def Let_def get_engine_cache_stage_def staged_def
        split: model_ref.splits)
qed

lemma call_disabled:
  assumes "\<not> truthy (build_cache_enabled env l)" "model_format l \<noteq> TLLM_ENGINE"
  shows "CachedModelLoader_call env l = build_model env (l\<lparr>has_cache_stage := False\<rparr>)"
  using assms by (simp add: CachedModelLoader_call_def Let_def)

text \<open>
  Claim C3. With the build cache enabled for a local model and less free storage
  under the cache root than the model directory needs, the call returns without an
  error, the cache-hit flag is false and the diagnostic string is recorded; but the
  build does not go to an ephemeral location: \<open>get_engine_dir\<close> still finds the
  build cache enabled, so the build is written, outside the write guard, to the
  engine path of the cache stage, which is also the directory returned, and no build
  goes to \<open>tmp.engine\<close> in the workspace. Here for a local model of 5 GB and 1 GB
  free.
\<close>

theorem low_storage_builds_into_cache_slot:
  "fst (CachedModelLoader_call small_cache local_hf) = Inr (stage_engine_path small_cache)
   \<and> levents (snd (CachedModelLoader_call small_cache local_hf)) =
       [StageLookup, IsCachedQuery, StageLookup,
        BuildTask (stage_engine_path small_cache), StageLookup]
   \<and> BuildTask (workspace local_hf @ ''/tmp.engine'')
       \<notin> set (levents (snd (CachedModelLoader_call small_cache local_hf)))
   \<and> cache_hitted (snd (CachedModelLoader_call small_cache local_hf)) = False
   \<and> cache_info (snd (CachedModelLoader_call small_cache local_hf)) =
       Some ''The cache root directory is too small.''"
  by (simp add: CachedModelLoader_call_def build_model_def get_engine_dir_def
      get_engine_cache_stage_def build_task_def has_storage_def guarded_build_def
      build_cache_enabled_def py_and_def py_or_def py_not_def is_local_model_def
      local_hf_def small_cache_def Let_def)

text \<open>
  Claim C9. When the build cache is enabled, storage is sufficient and the build
  into the directory of the write guard returns, \<open>_build_model\<close> (called with the
  cache stage and the model directory set, as \<open>__call__\<close> does) enters the write
  guard, builds into its directory, publishes, sets \<open>cache_hitted\<close> to \<open>True\<close> and
  returns the engine path of the stage. So \<open>__call__\<close> ends with \<open>cache_hitted\<close>
  \<open>True\<close> also when the stage held no cached engine and the engine was just built.
\<close>

theorem cache_enabled_build_sets_hit:
  assumes "truthy (build_cache_enabled env l)"
    and "has_storage env (l\<lparr>has_cache_stage := True\<rparr>)"
    and "build_outcome env (guard_dir env) = None"
  shows "(has_cache_stage l \<and> hf_model_dir l \<noteq> None \<longrightarrow>
            build_model env l =
              (Inr (stage_engine_path env),
               l\<lparr>cache_hitted := True,
                 levents := levents l @
                   [GuardEnter, BuildTask (guard_dir env), GuardPublish, StageLookup]\<rparr>))
       \<and> (\<not> stage_is_cached env \<longrightarrow>
            fst (CachedModelLoader_call env l) = Inr (stage_engine_path env)
            \<and> cache_hitted (snd (CachedModelLoader_call env l)) = True
            \<and> levents (snd (CachedModelLoader_call env l)) =
                levents l @ (if is_local_model l then [] else [DownloadConfig])
                @ [StageLookup, IsCachedQuery,
                   GuardEnter, BuildTask (guard_dir env), GuardPublish, StageLookup])"
proof (intro conjI impI)
  assume a: "has_cache_stage l \<and> hf_model_dir l \<noteq> None"
  then obtain d where d: "hf_model_dir l = Some d" by auto
  from a assms(2) have "has_storage env l" by (simp add: has_storage_staged)
  from build_model_guarded[OF assms(1) this _ d assms(3)] a
  show "build_model env l =
          (Inr (stage_engine_path env),
           l\<lparr>cache_hitted := True,
             levents := levents l @
               [GuardEnter, BuildTask (guard_dir env), GuardPublish, StageLookup]\<rparr>)"
    by simp
next
  assume u: "\<not> stage_is_cached env"
  obtain d where d: "hf_model_dir (staged env l) = Some d"
    using staged_props(2) by blast
  have e: "truthy (build_cache_enabled env (staged env l))"
    using assms(1) by (simp add: staged_props)
  have s: "has_storage env (staged env l)"
    using assms(2) by (simp add: staged_props)
  have b: "CachedModelLoader_call env l =
      (Inr (stage_engine_path env),
       (staged env l)\<lparr>cache_hitted := True,
         levents := levents (staged env l) @
           [GuardEnter, BuildTask (guard_dir env), GuardPublish, StageLookup]\<rparr>)"
    unfolding call_enabled_uncached[OF assms(1) u]
    by (rule build_model_guarded[OF e s staged_props(1) d assms(3)])
  show "fst (CachedModelLoader_call env l) = Inr (stage_engine_path env)"
    by (simp add: b)
  show "cache_hitted (snd (CachedModelLoader_call env l)) = True"
    by (simp add: b)
  show "levents (snd (CachedModelLoader_call env l)) =
          levents l @ (if is_local_model l then [] else [DownloadConfig])
          @ [StageLookup, IsCachedQuery,
             GuardEnter, BuildTask (guard_dir env), GuardPublish, StageLookup]"
    by (simp add: b staged_def is_local_model_def split: model_ref.splits)
qed

theorem cache_enabled_build_sets_hit_witness:
  "truthy (build_cache_enabled large_cache local_hf)
   \<and> has_storage large_cache (local_hf\<lparr>has_cache_stage := True\<rparr>)
   \<and> build_outcome large_cache (guard_dir large_cache) = None
   \<and> \<not> stage_is_cached large_cache
   \<and> fst (CachedModelLoader_call large_cache local_hf) = Inr ''/cache/key/content''
   \<and> cache_hitted (snd (CachedModelLoader_call large_cache local_hf)) = True
   \<and> levents (snd (CachedModelLoader_call large_cache local_hf)) =
       [StageLookup, IsCachedQuery, GuardEnter, BuildTask ''/cache/key.dummy/content'',
        GuardPublish, StageLookup]
   \<and> has_cache_stage (staged large_cache local_hf)
   \<and> hf_model_dir (staged large_cache local_hf) = Some ''/models/llama''
   \<and> fst (build_model large_cache (staged large_cache local_hf)) = Inr ''/cache/key/content''
   \<and> cache_hitted (snd (build_model large_cache (staged large_cache local_hf))) = True"
proof -
  have h: "truthy (build_cache_enabled large_cache local_hf)"
    "has_storage large_cache (local_hf\<lparr>has_cache_stage := True\<rparr>)"
    "build_outcome large_cache (guard_dir large_cache) = None"
    "\<not> stage_is_cached large_cache"
    by (simp_all add: build_cache_enabled_def py_and_def py_or_def py_not_def has_storage_def
        is_local_model_def local_hf_def large_cache_def small_cache_def)
  have g: "truthy (build_cache_enabled large_cache (staged large_cache local_hf))"
    "has_storage large_cache ((staged large_cache local_hf)\<lparr>has_cache_stage := True\<rparr>)"
    "has_cache_stage (staged large_cache local_hf)"
    "hf_model_dir (staged large_cache local_hf) = Some ''/models/llama''"
    by (simp_all add: build_cache_enabled_def py_and_def py_or_def py_not_def has_storage_def
        is_local_model_def staged_def local_hf_def large_cache_def small_cache_def)
  from g(3,4) have g': "has_cache_stage (staged large_cache local_hf)
      \<and> hf_model_dir (staged large_cache local_hf) \<noteq> None"
    by simp
  have c: "fst (CachedModelLoader_call large_cache local_hf) = Inr ''/cache/key/content''
     \<and> cache_hitted (snd (CachedModelLoader_call large_cache local_hf)) = True
     \<and> levents (snd (CachedModelLoader_call large_cache local_hf)) =
       [StageLookup, IsCachedQuery, GuardEnter, BuildTask ''/cache/key.dummy/content'',
        GuardPublish, StageLookup]"
    using cache_enabled_build_sets_hit[OF h(1-3), THEN conjunct2, rule_format, OF h(4)]
    by (simp add: is_local_model_def local_hf_def large_cache_def small_cache_def)
  have b: "fst (build_model large_cache (staged large_cache local_hf)) = Inr ''/cache/key/content''
     \<and> cache_hitted (snd (build_model large_cache (staged large_cache local_hf))) = True"
    using cache_enabled_build_sets_hit[OF g(1,2) h(3), THEN conjunct1, rule_format, OF g']
    by (simp add: large_cache_def small_cache_def)
  from h g(3,4) c b show ?thesis by simp
qed

text \<open>
  Claim C10. \<open>build_cache_enabled\<close> is true exactly when the caller's
  \<open>enable_build_cache\<close> or the environment's flag is true, the model format is \<open>HF\<close>
  and auto-parallel is off. So for a checkpoint, for an engine and in auto-parallel
  mode \<open>__call__\<close> touches the build cache not at all, whatever \<open>enable_build_cache\<close>
  is: an engine is returned as it is, and otherwise the one thing done is the build
  into \<open>tmp.engine\<close> of the workspace, with \<open>cache_hitted\<close> and \<open>cache_info\<close> as they
  were.
\<close>

theorem build_cache_only_for_hf:
  "(truthy (build_cache_enabled env l) \<longleftrightarrow>
      (truthy (enable_build_cache l) \<or> env_enable_build_cache env)
      \<and> model_format l = HF \<and> \<not> auto_parallel l)
   \<and> (model_format l \<noteq> HF \<or> auto_parallel l \<longrightarrow>
        snd (CachedModelLoader_call env l) =
          (if model_format l = TLLM_ENGINE then l
           else l\<lparr>has_cache_stage := False,
                  levents := levents l @ [BuildTask (workspace l @ ''/tmp.engine'')]\<rparr>)
        \<and> filter cache_event (levents (snd (CachedModelLoader_call env l))) =
            filter cache_event (levents l))"
proof (intro conjI impI)
  show "truthy (build_cache_enabled env l) \<longleftrightarrow>
      (truthy (enable_build_cache l) \<or> env_enable_build_cache env)
      \<and> model_format l = HF \<and> \<not> auto_parallel l"
    by (rule enabled_iff)
next
  assume a: "model_format l \<noteq> HF \<or> auto_parallel l"
  hence off: "\<not> truthy (build_cache_enabled env l)" by (auto simp: enabled_iff)
  show s: "snd (CachedModelLoader_call env l) =
          (if model_format l = TLLM_ENGINE then l
           else l\<lparr>has_cache_stage := False,
                  levents := levents l @ [BuildTask (workspace l @ ''/tmp.engine'')]\<rparr>)"
  proof (cases "model_format l = TLLM_ENGINE")
    case True
    thus ?thesis by (simp add: CachedModelLoader_call_def)
  next
    case False
    have "\<not> truthy (build_cache_enabled env (l\<lparr>has_cache_stage := False\<rparr>))"
      using off by simp
    from build_model_disabled(1)[OF this] False
    show ?thesis by (simp add: call_disabled[OF off False])
  qed
  show "filter cache_event (levents (snd (CachedModelLoader_call env l))) =
            filter cache_event (levents l)"
    unfolding s by simp
qed

theorem build_cache_only_for_hf_witness:
  "model_format (local_hf\<lparr>model_format := TLLM_CKPT\<rparr>) \<noteq> HF
   \<and> truthy (enable_build_cache (local_hf\<lparr>model_format := TLLM_CKPT\<rparr>))
   \<and> \<not> truthy (build_cache_enabled large_cache (local_hf\<lparr>model_format := TLLM_CKPT\<rparr>))
   \<and> levents (snd (CachedModelLoader_call large_cache (local_hf\<lparr>model_format := TLLM_CKPT\<rparr>)))
       = [BuildTask ''/tmp/ws/tmp.engine'']
   \<and> auto_parallel (local_hf\<lparr>auto_parallel := True\<rparr>)
   \<and> levents (snd (CachedModelLoader_call large_cache (local_hf\<lparr>auto_parallel := True\<rparr>)))
       = [BuildTask ''/tmp/ws/tmp.engine'']"
  using build_cache_only_for_hf[of large_cache "local_hf\<lparr>model_format := TLLM_CKPT\<rparr>"]
    build_cache_only_for_hf[of large_cache "local_hf\<lparr>auto_parallel := True\<rparr>"]
  by (simp add: local_hf_def)


section \<open>The format of a model directory\<close>

lemma both_in_dict:
  "both_in a b (JDict kvs) = Some (a \<in> fst ` set kvs \<and> b \<in> fst ` set kvs)"
  by (simp add: both_in_def py_in_def split: bool.splits)

lemma infer_format_dict:
  "infer_format fs dir (JDict kvs) =
     (if ''pretrained_config'' \<in> fst ` set kvs \<and> ''build_config'' \<in> fst ` set kvs
      then Inferred TLLM_ENGINE (EngineConfig_from_json_file fs (dir @ ''/config.json''))
      else if ''architecture'' \<in> fst ` set kvs \<and> ''dtype'' \<in> fst ` set kvs
      then Inferred TLLM_CKPT (PretrainedConfig_from_checkpoint fs dir)
      else Inferred HF (AutoConfig_from_hugging_face fs dir))"
  unfolding infer_format_def both_in_dict by (simp split: bool.splits)

text \<open>A config that is a number, a truth value or \<open>null\<close>: the handler itself fails.\<close>

lemma get_model_format_scalar:
  assumes "file_exists fs (dir @ ''/config.json'')"
    and "json_load fs (dir @ ''/config.json'') = Inr config"
    and "config \<in> {JNull, JBool b, JInt i, JFloat r}"
  shows "get_model_format fs dir = Inl UnboundLocalError"
  using assms by (auto simp: get_model_format_def infer_format_def both_in_def py_in_def)

text \<open>
  Claim C5. \<open>get_model_format\<close> decides from \<open>config.json\<close> of the directory alone.
  Without the file it raises \<open>ValueError\<close>. With the file holding a JSON object, the
  format is \<open>TLLM_ENGINE\<close> when the keys \<open>pretrained_config\<close> and \<open>build_config\<close> are
  both present, else \<open>TLLM_CKPT\<close> when \<open>architecture\<close> and \<open>dtype\<close> are both present,
  else \<open>HF\<close>; it is returned when the loader of that format loads the config, and
  when that loader raises, \<open>get_model_format\<close> raises: \<open>ValueError\<close> for an
  \<open>Exception\<close>, and what was raised otherwise.
\<close>

theorem model_format_from_config:
  "(\<not> file_exists fs (dir @ ''/config.json'') \<longrightarrow>
      get_model_format fs dir =
        Inl (ValueError
          (''Failed to infer model format because no config.json exists in '' @ dir)))
   \<and> (file_exists fs (dir @ ''/config.json'')
        \<and> json_load fs (dir @ ''/config.json'') = Inr (JDict kvs) \<longrightarrow>
       (let fmt =
              (if ''pretrained_config'' \<in> fst ` set kvs \<and> ''build_config'' \<in> fst ` set kvs
               then TLLM_ENGINE
               else if ''architecture'' \<in> fst ` set kvs \<and> ''dtype'' \<in> fst ` set kvs
               then TLLM_CKPT else HF);
            loaded =
              (case fmt of
                 TLLM_ENGINE \<Rightarrow> EngineConfig_from_json_file fs (dir @ ''/config.json'')
               | TLLM_CKPT \<Rightarrow> PretrainedConfig_from_checkpoint fs dir
               | HF \<Rightarrow> AutoConfig_from_hugging_face fs dir)
        in (loaded = Loads \<longrightarrow> get_model_format fs dir = Inr fmt)
           \<and> (\<forall>e. loaded = LoadRaises e \<longrightarrow>
                 get_model_format fs dir =
                   Inl (ValueError (''Inferred model format '' @ format_name fmt
                          @ '', but failed to load config.json: '' @ e)))
           \<and> (\<forall>e. loaded = LoadAborts e \<longrightarrow> get_model_format fs dir = Inl (Propagated e))
           \<and> (loaded \<noteq> Loads \<longrightarrow> isl (get_model_format fs dir))))"
proof (intro conjI impI)
  assume "\<not> file_exists fs (dir @ ''/config.json'')"
  thus "get_model_format fs dir =
        Inl (ValueError
          (''Failed to infer model format because no config.json exists in '' @ dir))"
    by (simp add: get_model_format_def)
next
  assume a: "file_exists fs (dir @ ''/config.json'')
        \<and> json_load fs (dir @ ''/config.json'') = Inr (JDict kvs)"
  hence g: "get_model_format fs dir =
      (case infer_format fs dir (JDict kvs) of
         Uninferred \<Rightarrow> Inl UnboundLocalError
       | Inferred fmt Loads \<Rightarrow> Inr fmt
       | Inferred fmt (LoadRaises e) \<Rightarrow>
           Inl (ValueError
             (''Inferred model format '' @ format_name fmt
              @ '', but failed to load config.json: '' @ e))
       | Inferred fmt (LoadAborts e) \<Rightarrow> Inl (Propagated e))"
    by (simp add: get_model_format_def)
  show "let fmt =
              (if ''pretrained_config'' \<in> fst ` set kvs \<and> ''build_config'' \<in> fst ` set kvs
               then TLLM_ENGINE
               else if ''architecture'' \<in> fst ` set kvs \<and> ''dtype'' \<in> fst ` set kvs
               then TLLM_CKPT else HF);
            loaded =
              (case fmt of
                 TLLM_ENGINE \<Rightarrow> EngineConfig_from_json_file fs (dir @ ''/config.json'')
               | TLLM_CKPT \<Rightarrow> PretrainedConfig_from_checkpoint fs dir
               | HF \<Rightarrow> AutoConfig_from_hugging_face fs dir)
        in (loaded = Loads \<longrightarrow> get_model_format fs dir = Inr fmt)
           \<and> (\<forall>e. loaded = LoadRaises e \<longrightarrow>
                 get_model_format fs dir =
                   Inl (ValueError (''Inferred model format '' @ format_name fmt
                          @ '', but failed to load config.json: '' @ e)))
           \<and> (\<forall>e. loaded = LoadAborts e \<longrightarrow> get_model_format fs dir = Inl (Propagated e))
           \<and> (loaded \<noteq> Loads \<longrightarrow> isl (get_model_format fs dir))"
    unfolding g infer_format_dict Let_def
    by (simp split: loading.splits)
qed

theorem model_format_from_config_witness:
  "get_model_format model_store ''/m/engine'' = Inr TLLM_ENGINE
   \<and> get_model_format model_store ''/m/ckpt'' = Inr TLLM_CKPT
   \<and> get_model_format model_store ''/m/hf'' = Inr HF
   \<and> get_model_format model_store ''/m/bad'' =
       Inl (ValueError (''Inferred model format _ModelFormatKind.TLLM_CKPT''
                        @ '', but failed to load config.json: KeyError: mapping''))
   \<and> \<not> file_exists model_store (''/m/none'' @ ''/config.json'')
   \<and> isl (get_model_format model_store ''/m/none'')"
proof -
  have engine: "file_exists model_store (''/m/engine'' @ ''/config.json'')
      \<and> json_load model_store (''/m/engine'' @ ''/config.json'') =
          Inr (JDict [(''version'', JStr ''0.12''), (''pretrained_config'', JDict []),
                      (''build_config'', JDict [])])"
    and ckpt: "file_exists model_store (''/m/ckpt'' @ ''/config.json'')
      \<and> json_load model_store (''/m/ckpt'' @ ''/config.json'') =
          Inr (JDict [(''architecture'', JStr ''LlamaForCausalLM''),
                      (''dtype'', JStr ''float16'')])"
    and hf: "file_exists model_store (''/m/hf'' @ ''/config.json'')
      \<and> json_load model_store (''/m/hf'' @ ''/config.json'') =
          Inr (JDict [(''architectures'', JList [JStr ''LlamaForCausalLM'']),
                      (''torch_dtype'', JStr ''float16'')])"
    and bad: "file_exists model_store (''/m/bad'' @ ''/config.json'')
      \<and> json_load model_store (''/m/bad'' @ ''/config.json'') =
          Inr (JDict [(''architecture'', JStr ''LlamaForCausalLM''),
                      (''dtype'', JStr ''float16'')])"
    and none: "\<not> file_exists model_store (''/m/none'' @ ''/config.json'')"
    by (simp_all add: model_store_def)
  have loaders: "EngineConfig_from_json_file model_store ''/m/engine/config.json'' = Loads"
    "PretrainedConfig_from_checkpoint model_store ''/m/ckpt'' = Loads"
    "AutoConfig_from_hugging_face model_store ''/m/hf'' = Loads"
    "PretrainedConfig_from_checkpoint model_store ''/m/bad'' = LoadRaises ''KeyError: mapping''"
    by (simp_all add: model_store_def)
  have 1: "get_model_format model_store ''/m/engine'' = Inr TLLM_ENGINE"
    using model_format_from_config[THEN conjunct2, rule_format, OF engine]
    by (simp add: Let_def loaders)
  have 2: "get_model_format model_store ''/m/ckpt'' = Inr TLLM_CKPT"
    using model_format_from_config[THEN conjunct2, rule_format, OF ckpt]
    by (simp add: Let_def loaders)
  have 3: "get_model_format model_store ''/m/hf'' = Inr HF"
    using model_format_from_config[THEN conjunct2, rule_format, OF hf]
    by (simp add: Let_def loaders)
  have 4: "get_model_format model_store ''/m/bad'' =
       Inl (ValueError (''Inferred model format _ModelFormatKind.TLLM_CKPT''
                        @ '', but failed to load config.json: KeyError: mapping''))"
    using model_format_from_config[THEN conjunct2, rule_format, OF bad]
    by (simp add: Let_def loaders)
  have 5: "isl (get_model_format model_store ''/m/none'')"
    using model_format_from_config[THEN conjunct1, rule_format, OF none]
    by simp
  from 1 2 3 4 5 none show ?thesis by simp
qed


section \<open>The key of the engine cache does not depend on the order of keys\<close>

lemma map_insort_key:
  "map f (insort_key f x xs) = insort (f x) (map f xs)"
  by (induction xs) simp_all

lemma map_sort_key:
  "map f (sort_key f xs) = sort (map f xs)"
  by (induction xs) (simp_all add: map_insort_key)

text \<open>The sorted items of a dictionary, from its keys and its lookup alone.\<close>

lemma sorted_items:
  assumes "distinct (map fst kvs)"
  shows "sort_key fst kvs =
     map (\<lambda>k. (k, the (map_of kvs k))) (sorted_list_of_set (set (map fst kvs)))"
proof -
  have "map (\<lambda>p. (fst p, the (map_of kvs (fst p)))) (sort_key fst kvs) = sort_key fst kvs"
  proof (rule map_idI)
    fix p assume "p \<in> set (sort_key fst kvs)"
    hence "(fst p, snd p) \<in> set kvs" by simp
    hence "map_of kvs (fst p) = Some (snd p)" using assms by (rule map_of_is_SomeI[rotated])
    thus "(fst p, the (map_of kvs (fst p))) = p" by simp
  qed
  hence "sort_key fst kvs =
      map (\<lambda>k. (k, the (map_of kvs k))) (map fst (sort_key fst kvs))"
    by (simp add: comp_def)
  also have "map fst (sort_key fst kvs) = sorted_list_of_set (set (map fst kvs))"
    unfolding sorted_list_of_set_sort_remdups map_sort_key
    using assms by (simp only: distinct_remdups_id)
  finally show ?thesis .
qed

lemma dumps_items:
  assumes d: "distinct (map fst kvs)" "distinct (map fst kvs')"
    and keys: "set (map fst kvs) = set (map fst kvs')"
    and vals: "\<And>k v v'. (k, v) \<in> set kvs \<Longrightarrow> (k, v') \<in> set kvs' \<Longrightarrow> f v = f v'"
  shows "map (\<lambda>(k, v). g k (f v)) (sort_key fst kvs) =
         map (\<lambda>(k, v). g k (f v)) (sort_key fst kvs')"
proof -
  have "f (the (map_of kvs k)) = f (the (map_of kvs' k))" if "k \<in> set (map fst kvs)" for k
  proof -
    from that obtain v where v: "(k, v) \<in> set kvs" by auto
    from that keys obtain v' where v': "(k, v') \<in> set kvs'" by auto
    from v d(1) have "map_of kvs k = Some v" by (simp add: map_of_is_SomeI)
    moreover from v' d(2) have "map_of kvs' k = Some v'" by (simp add: map_of_is_SomeI)
    ultimately show ?thesis using vals[OF v v'] by simp
  qed
  thus ?thesis
    unfolding sorted_items[OF d(1)] sorted_items[OF d(2)] keys[symmetric]
    by (simp add: comp_def)
qed

lemma dumps_key_order:
  "unique_keys a \<Longrightarrow> unique_keys b \<Longrightarrow> same_value a b \<Longrightarrow> dumps a = dumps b"
proof (induction a arbitrary: b rule: dumps.induct)
  case (6 xs)
  then obtain ys where b: "b = JList ys" by (cases b) simp_all
  from 6(2,3,4) have "list_all2 same_value xs ys" "list_all unique_keys xs" "list_all unique_keys ys"
    unfolding b by simp_all
  hence "map dumps xs = map dumps ys" using 6(1)
  proof (induction xs ys rule: list_all2_induct)
    case Nil thus ?case by simp
  next
    case (Cons x xs y ys)
    thus ?case by simp
  qed
  thus ?case unfolding b by simp
next
  case (7 kvs)
  then obtain kvs' where b: "b = JDict kvs'" by (cases b) simp_all
  from 7(2,3,4) have d: "distinct (map fst kvs)" "distinct (map fst kvs')"
    and keys: "set (map fst kvs) = set (map fst kvs')"
    and u: "list_all (\<lambda>(k, v). unique_keys v) kvs" "list_all (\<lambda>(k, v). unique_keys v) kvs'"
    and sv: "\<forall>(k, v) \<in> set kvs. \<forall>(k', v') \<in> set kvs'. k = k' \<longrightarrow> same_value v v'"
    unfolding b by simp_all
  have "dumps v = dumps v'" if v: "(k, v) \<in> set kvs" and v': "(k, v') \<in> set kvs'" for k v v'
  proof -
    from v have "(k, v) \<in> set (sort_key fst kvs)" by simp
    moreover from u(1) v have "unique_keys v" by (auto simp: list_all_iff)
    moreover from u(2) v' have "unique_keys v'" by (auto simp: list_all_iff)
    moreover from sv v v' have "same_value v v'" by auto
    ultimately show ?thesis using 7(1)[of "(k, v)" k v v'] by simp
  qed
  from dumps_items[where f = dumps
        and g = "\<lambda>k s. map_option (\<lambda>s. encode_basestring_ascii k @ '': '' @ s) s",
      OF d keys this]
  show ?case unfolding b by simp
qed (cases b; simp)+

lemma serialize_key_order:
  "unique_keys a \<Longrightarrow> unique_keys b \<Longrightarrow> same_value a b \<Longrightarrow> serialize a = serialize b"
  by (simp add: serialize_def dumps_key_order[of a b])

text \<open>
  Claim C4. The key of the engine cache is a function of the configurations, and it
  is the same for configurations that differ only in the order of the keys of their
  dictionaries: \<open>serialize\<close> sorts the keys of every dictionary, so the three strings
  that \<open>_get_engine_cache_stage\<close> passes on are the same, and so is the fingerprint
  made of the sorted serializations. Nothing but the values enters a serialization:
  an object that is not of a JSON type makes \<open>json.dumps\<close> raise.
\<close>

theorem cache_key_independent_of_key_order:
  assumes "unique_inputs c" "unique_inputs c'" "same_inputs c c'"
  shows "engine_cache_key l c = engine_cache_key l c'
     \<and> serialize (ci_parallel_config c) = serialize (ci_parallel_config c')
     \<and> serialize (ci_pretrained_config c) = serialize (ci_pretrained_config c')
     \<and> serialize (ci_quant_config c) = serialize (ci_quant_config c')"
proof -
  from assms have
    1: "serialize (ci_parallel_config c) = serialize (ci_parallel_config c')" and
    2: "serialize (ci_pretrained_config c) = serialize (ci_pretrained_config c')" and
    3: "serialize (ci_quant_config c) = serialize (ci_quant_config c')" and
    4: "serialize (bc_options (ci_build_config c)) = serialize (bc_options (ci_build_config c'))" and
    5: "serialize (bc_plugin_config (ci_build_config c)) =
        serialize (bc_plugin_config (ci_build_config c'))"
    by (simp_all add: unique_inputs_def same_inputs_def serialize_key_order)
  have "engine_cache_key l c = engine_cache_key l c'"
    by (simp add: engine_cache_key_def engine_cache_stage_request_def fingerprint_def Let_def
        1 2 3 4 5 split: option.splits sum.splits)
  with 1 2 3 show ?thesis by simp
qed

theorem cache_key_independent_of_key_order_witness:
  "unique_inputs llama_inputs \<and> unique_inputs llama_inputs_reordered
   \<and> same_inputs llama_inputs llama_inputs_reordered
   \<and> ci_parallel_config llama_inputs \<noteq> ci_parallel_config llama_inputs_reordered
   \<and> engine_cache_key staged_hf llama_inputs = engine_cache_key staged_hf llama_inputs_reordered
   \<and> map_sum id length (engine_cache_key staged_hf llama_inputs) = Inr 5"
proof -
  have u: "unique_inputs llama_inputs" and u': "unique_inputs llama_inputs_reordered"
    and s: "same_inputs llama_inputs llama_inputs_reordered"
    by code_simp+
  have d: "ci_parallel_config llama_inputs \<noteq> ci_parallel_config llama_inputs_reordered"
    by (simp add: llama_inputs_def llama_inputs_reordered_def)
  have k: "map_sum id length (engine_cache_key staged_hf llama_inputs) = Inr 5"
    by code_simp
  from cache_key_independent_of_key_order[OF u u' s, of staged_hf] u u' s d k
  show ?thesis by simp
qed

end
